theory Spec2Isabelle
  imports Main "HOL-Library.Sublist" "HOL-Library.Word"
begin

section \<open>The EKS tester of \<^verbatim>\<open>eks/eks.go\<close>: data model\<close>

text \<open>
  The add-ons of the tester. Each one has, in \<^verbatim>\<open>eksconfig.Config\<close>, an enablement
  predicate \<^verbatim>\<open>IsEnabledAddOnX()\<close> and a flag \<^verbatim>\<open>AddOnX.Created\<close>, and in the
  \<^verbatim>\<open>Tester\<close> struct a handle \<^verbatim>\<open>xTester\<close> (an interface value, possibly nil).
\<close>

datatype addon =
    NodeGroups | ManagedNodeGroups
  | Conformance | CSIEBS | AppMesh | KubernetesDashboard | PrometheusGrafana
  | NLBHelloWorld | ALB2048 | JobsPi | JobsEcho | CronJobs
  | CSRsLocal | CSRsRemote | ConfigMapsLocal | ConfigMapsRemote
  | SecretsLocal | SecretsRemote
  | Fargate | IRSA | IRSAFargate | Wordpress | JupyterHub | Kubeflow
  | HollowNodesLocal | HollowNodesRemote
  | ClusterLoaderLocal | ClusterLoaderRemote
  | StresserLocal | StresserRemote

text \<open>The two operator-supplied command hooks of \<^verbatim>\<open>Up\<close>.\<close>

datatype hook = AfterCreateCluster | AfterCreateAddOns

text \<open>
  The calls that \<^verbatim>\<open>Up\<close>, \<open>down\<close>, \<^verbatim>\<open>IsUp\<close> and
  \<^verbatim>\<open>createSubTesters\<close> make to their collaborators: the tester's own
  infrastructure methods (defined in other files of the package), the add-on testers'
  methods, the constructors of the add-on testers (\<^verbatim>\<open>ng.New\<close>, \<^verbatim>\<open>gpu.New\<close>
  and the like), and the configuration's \<^verbatim>\<open>Sync\<close> and
  \<^verbatim>\<open>EvaluateCommandRefs\<close>.
\<close>

datatype call =
    createS3 | createEncryption | createKeyPair | createClusterRole | createVPC
  | createCluster | checkHealth | uploadToS3 | Sync | EvaluateCommandRefs
  | runCommand hook | WriteFile hook
  | InstallNvidiaDriver | CreateNvidiaSMI
  | Create addon | Delete addon | FetchLogs addon | AggregateResults addon
  | NewTester addon | NewGPUTester
  | deleteKeyPair | deleteCluster | deleteEncryption | deleteClusterRole | deleteVPC
  | deleteS3

text \<open>
  What an observer of one run sees, in order: each collaborator call with the error it
  returned (\<open>None\<close> is Go's nil error), each \<^verbatim>\<open>time.Sleep\<close> with its duration in
  seconds, the interruptible wait before the clean-up in \<^verbatim>\<open>Up\<close>'s deferred function,
  each interrupted result that \<^verbatim>\<open>catchInterrupt\<close> hands back, and the banner
  \<^verbatim>\<open>DOWN START\<close> that \<open>down\<close> prints first.
\<close>

datatype event =
    Invoke call "string option"
  | Sleep nat
  | WaitBeforeCleanUp
  | Interrupted call
  | DownStart

text \<open>The two origins that feed the stop signal.\<close>

datatype signal = StopRequest | OsSignal

text \<open>
  How a function of the tester ends: it returns nil (\<open>Ok\<close>), returns an error with its
  message (\<open>Err\<close>), or panics (the nil-pointer dereference of Go).
\<close>

datatype res = Ok | Err string | Panic

record status =
  status_Up :: bool

text \<open>
  The fields of \<^verbatim>\<open>eksconfig.Config\<close> that \<^verbatim>\<open>eks.go\<close> reads. \<open>enabled c a\<close> is
  \<^verbatim>\<open>cfg.IsEnabledAddOnA()\<close>, \<open>created c a\<close> is \<^verbatim>\<open>cfg.AddOnA.Created\<close>,
  \<open>fetch_logs c a\<close> is \<^verbatim>\<open>cfg.AddOnA.FetchLogs\<close> (read for the two node-group
  add-ons); \<open>ASGs\<close> and \<open>MNGs\<close> hold the \<^verbatim>\<open>AMIType\<close> of every configured group.
  \<open>Status\<close> is a pointer and may be nil.
\<close>

record config =
  Status :: "status option"
  enabled :: "addon \<Rightarrow> bool"
  created :: "addon \<Rightarrow> bool"
  fetch_logs :: "addon \<Rightarrow> bool"
  ASGs :: "string list"
  MNGs :: "string list"
  OnFailureDelete :: bool
  OnFailureDeleteWaitSeconds :: "64 word"
  VPCCreate :: bool
  CommandAfterCreateCluster :: string
  CommandAfterCreateClusterOutputPath :: string
  CommandAfterCreateAddOns :: string
  CommandAfterCreateAddOnsOutputPath :: string

text \<open>
  The fields of \<^verbatim>\<open>Tester\<close> other than \<^verbatim>\<open>cfg\<close>. \<open>handle t a\<close> says that the
  tester of add-on \<open>a\<close> is not nil. \<open>stopCreationCh\<close> is true once the channel is
  closed, \<open>stopCreationChOnce\<close> once the \<^verbatim>\<open>sync.Once\<close> has run. \<open>world\<close> is the
  state of everything outside the tester (the cloud, the cluster, the file system);
  \<open>trace\<close> is the log of what the run did so far.
\<close>

record 'w tester =
  handle :: "addon \<Rightarrow> bool"
  gpuTester :: bool
  stopCreationCh :: bool
  stopCreationChOnce :: bool
  world :: 'w
  trace :: "event list"

text \<open>
  A \<^verbatim>\<open>*Tester\<close> is the pair of what \<^verbatim>\<open>ts.cfg\<close> points to (\<open>None\<close> when it is
  nil) and the other fields; inside a function that has dereferenced \<^verbatim>\<open>ts.cfg\<close>
  the configuration is there.
\<close>

type_synonym 'w Tester = "config option \<times> 'w tester"
type_synonym 'w live = "config \<times> 'w tester"

text \<open>
  The environment of a run. \<open>exec env c w\<close> is what the collaborator call \<open>c\<close>
  returns when started in world \<open>w\<close>, and the world it leaves; \<open>built env c w\<close> says,
  for a constructor call \<open>c\<close>, that the tester it returns beside its error is not nil;
  \<open>signals env c w\<close> are the stop requests and process signals that arrive while that
  call is running, before it has finished; \<open>fmt_q\<close> is the quoting of \<^verbatim>\<open>%q\<close> in
  \<^verbatim>\<open>fmt\<close>.
\<close>

record 'w env =
  exec :: "call \<Rightarrow> 'w \<Rightarrow> string option \<times> 'w"
  built :: "call \<Rightarrow> 'w \<Rightarrow> bool"
  signals :: "call \<Rightarrow> 'w \<Rightarrow> signal list"
  fmt_q :: "string \<Rightarrow> string"

section \<open>Collaborator calls\<close>

definition log :: "event \<Rightarrow> 'w tester \<Rightarrow> 'w tester" where
  "log e t = t\<lparr>trace := trace t @ [e]\<rparr>"

fun res_of :: "string option \<Rightarrow> res" where
  "res_of None = Ok"
| "res_of (Some e) = Err e"

text \<open>
  Modelled from the spec: the add-on testers (packages \<^verbatim>\<open>eks/jobs-echo\<close> and the
  like) are not part of the sources at hand. The specification says of them that a
  successful \<^verbatim>\<open>Create\<close> flips the add-on's \<^verbatim>\<open>Created\<close> flag and persists the
  state, and that the state is persisted after each successful deletion, so that the
  flag is false afterwards. A failed call leaves the flags as they were, and no other
  call touches them.
\<close>

fun persisted :: "call \<Rightarrow> string option \<Rightarrow> config \<Rightarrow> config" where
  "persisted (Create a) None c = c\<lparr>created := (created c)(a := True)\<rparr>"
| "persisted (Delete a) None c = c\<lparr>created := (created c)(a := False)\<rparr>"
| "persisted k r c = c"

text \<open>One collaborator call: it runs in the world, is logged with its result, and
  leaves its mark on the configuration.\<close>

definition invoke :: "'w env \<Rightarrow> call \<Rightarrow> 'w live \<Rightarrow> string option \<times> 'w live" where
  "invoke env k s =
     (case s of (c, t) \<Rightarrow>
        (case exec env k (world t) of (r, w') \<Rightarrow>
           (r, (persisted k r c, log (Invoke k r) (t\<lparr>world := w'\<rparr>)))))"

definition sleep :: "nat \<Rightarrow> 'w live \<Rightarrow> 'w live" where
  "sleep n s = (case s of (c, t) \<Rightarrow> (c, log (Sleep n) t))"

section \<open>createSubTesters and createCluster\<close>

text \<open>
  One block of \<^verbatim>\<open>createSubTesters\<close>. \<open>Sub a checked\<close> is the block of add-on
  \<open>a\<close>: when the add-on is enabled its constructor is called and what it returns is
  stored in the handle; \<open>checked\<close> says that the block goes on with
  \<^verbatim>\<open>if err != nil { return err }\<close>. The blocks of \<^verbatim>\<open>Conformance\<close>,
  \<^verbatim>\<open>CSIEBS\<close>, \<^verbatim>\<open>AppMesh\<close>, \<^verbatim>\<open>KubernetesDashboard\<close>,
  \<^verbatim>\<open>PrometheusGrafana\<close> and \<^verbatim>\<open>JupyterHub\<close> do not look at the error, and the
  constructor of \<^verbatim>\<open>ClusterLoaderLocal\<close> returns a tester only. \<open>SubGPU\<close> is the
  block of the GPU tester, built when one of the two node-group add-ons is enabled.
\<close>

datatype sub = Sub addon bool | SubGPU

fun construct :: "'w env \<Rightarrow> sub \<Rightarrow> 'w live \<Rightarrow> string option \<times> 'w live" where
  "construct env (Sub a checked) s =
     (case s of (c, t) \<Rightarrow>
        if enabled c a
        then (case invoke env (NewTester a) s of (r, (c1, t1)) \<Rightarrow>
                (if checked then r else None,
                 (c1, t1\<lparr>handle := (handle t1)(a := built env (NewTester a) (world t))\<rparr>)))
        else (None, s))"
| "construct env SubGPU s =
     (case s of (c, t) \<Rightarrow>
        if enabled c NodeGroups \<or> enabled c ManagedNodeGroups
        then (case invoke env NewGPUTester s of (r, (c1, t1)) \<Rightarrow>
                (r, (c1, t1\<lparr>gpuTester := built env NewGPUTester (world t)\<rparr>)))
        else (None, s))"

definition SubTesters :: "sub list" where
  "SubTesters =
     [Sub NodeGroups True, Sub ManagedNodeGroups True, SubGPU,
      Sub Conformance False, Sub CSIEBS False, Sub AppMesh False,
      Sub KubernetesDashboard False, Sub PrometheusGrafana False,
      Sub NLBHelloWorld True, Sub ALB2048 True, Sub JobsPi True, Sub JobsEcho True,
      Sub CronJobs True, Sub CSRsLocal True, Sub CSRsRemote True,
      Sub ConfigMapsLocal True, Sub ConfigMapsRemote True, Sub SecretsLocal True,
      Sub SecretsRemote True, Sub Fargate True, Sub IRSA True, Sub IRSAFargate True,
      Sub Wordpress True, Sub JupyterHub False, Sub Kubeflow True,
      Sub ClusterLoaderLocal False, Sub ClusterLoaderRemote True,
      Sub HollowNodesLocal True, Sub HollowNodesRemote True,
      Sub StresserLocal True, Sub StresserRemote True]"

text \<open>The blocks in sequence; the first error that a block returns ends the function,
  and after the last block comes \<^verbatim>\<open>return ts.cfg.Sync()\<close>.\<close>

fun build :: "'w env \<Rightarrow> sub list \<Rightarrow> 'w live \<Rightarrow> string option \<times> 'w live" where
  "build env [] s = invoke env Sync s"
| "build env (b # bs) s =
     (case construct env b s of
        (Some e, s1) \<Rightarrow> (Some e, s1)
      | (None, s1) \<Rightarrow> build env bs s1)"

definition createSubTesters :: "'w env \<Rightarrow> 'w live \<Rightarrow> string option \<times> 'w live" where
  "createSubTesters env s = build env SubTesters s"

text \<open>
  Modelled from the spec: \<^verbatim>\<open>createCluster\<close> is defined in a file that is not part
  of the sources at hand. The specification has the add-on descriptors constructed
  once, conditioned on which capabilities are enabled, and a handle exist whenever its
  flag is enabled; the comment in \<^verbatim>\<open>New\<close> says that \<^verbatim>\<open>createSubTesters\<close> is
  called there because \<^verbatim>\<open>createCluster\<close>, which calls it otherwise, will not be
  called on a tester loaded from previous states. So \<^verbatim>\<open>createCluster\<close> is its own
  work on the control plane, a collaborator call, followed when that succeeded by
  \<^verbatim>\<open>createSubTesters\<close>, whose error it returns.
\<close>

definition createCluster_method :: "'w env \<Rightarrow> 'w live \<Rightarrow> string option \<times> 'w live" where
  "createCluster_method env s =
     (case invoke env createCluster s of
        (Some e, s1) \<Rightarrow> (Some e, s1)
      | (None, s1) \<Rightarrow> createSubTesters env s1)"

text \<open>The method value that a step hands to \<^verbatim>\<open>catchInterrupt\<close>.\<close>

definition perform :: "'w env \<Rightarrow> call \<Rightarrow> 'w live \<Rightarrow> string option \<times> 'w live" where
  "perform env k s = (if k = createCluster then createCluster_method env s else invoke env k s)"

section \<open>The stop signal and the interruptible step executor\<close>

text \<open>
  \<^verbatim>\<open>New\<close> allocates the channel open and the \<^verbatim>\<open>sync.Once\<close> unused
  (\<^verbatim>\<open>make(chan struct{})\<close>, \<^verbatim>\<open>new(sync.Once)\<close>).
\<close>

definition New_stop :: "'w tester \<Rightarrow> 'w tester" where
  "New_stop t = t\<lparr>stopCreationCh := False, stopCreationChOnce := False\<rparr>"

text \<open>
  Modelled from the spec: the code that fires the stop signal (\<^verbatim>\<open>catchInterrupt\<close>
  and the stop request) is in a file that is not part of the sources at hand. The
  specification describes a single-fire cancellation source fed by two origins, whose
  firing is an exactly-once transition; with the two fields that \<^verbatim>\<open>Tester\<close>
  declares, that is \<^verbatim>\<open>once.Do(func() { close(stopCreationCh) })\<close>. Closing a closed
  channel panics in Go (\<open>None\<close>).
\<close>

definition close_ch :: "bool \<Rightarrow> bool option" where
  "close_ch closed = (if closed then None else Some True)"

definition fire :: "'w tester \<Rightarrow> 'w tester option" where
  "fire t =
     (if stopCreationChOnce t then Some t
      else (case close_ch (stopCreationCh t) of
              None \<Rightarrow> None
            | Some b \<Rightarrow> Some (t\<lparr>stopCreationCh := b, stopCreationChOnce := True\<rparr>)))"

fun fire_all :: "signal list \<Rightarrow> 'w tester \<Rightarrow> 'w tester option" where
  "fire_all [] t = Some t"
| "fire_all (sg # sgs) t = (case fire t of None \<Rightarrow> None | Some t' \<Rightarrow> fire_all sgs t')"

definition interrupted :: string where
  "interrupted = ''interrupted''"

text \<open>
  Modelled from the spec: \<^verbatim>\<open>catchInterrupt\<close> is defined in a file that is not part
  of the sources at hand. The specification: given a blocking unit of work and the stop
  signal, execute the work and return its own result if it finishes first; if the stop
  signal fires first, return an interrupted result instead, without terminating the
  work, whose side effects stay. A signal that has fired stays fired, so a step started
  after it is interrupted as well. The work is the method of the tester that the step
  names (\<open>perform\<close>).
\<close>

definition catchInterrupt :: "'w env \<Rightarrow> call \<Rightarrow> 'w live \<Rightarrow> res \<times> 'w live" where
  "catchInterrupt env run s =
     (case s of (c, t) \<Rightarrow>
        (case perform env run s of (r, (c1, t1)) \<Rightarrow>
           if stopCreationCh t1 then (Err interrupted, (c1, log (Interrupted run) t1))
           else if signals env run (world t) = [] then (res_of r, (c1, t1))
           else (case fire_all (signals env run (world t)) t1 of
                   None \<Rightarrow> (Panic, (c1, t1))
                 | Some t2 \<Rightarrow> (Err interrupted, (c1, log (Interrupted run) t2)))))"

text \<open>Steps in sequence; the first one that does not return nil ends the run.\<close>

fun run_steps :: "('s \<Rightarrow> res \<times> 's) list \<Rightarrow> 's \<Rightarrow> res \<times> 's" where
  "run_steps [] s = (Ok, s)"
| "run_steps (f # fs) s =
     (case f s of (Ok, s') \<Rightarrow> run_steps fs s' | (Err e, s') \<Rightarrow> (Err e, s')
      | (Panic, s') \<Rightarrow> (Panic, s'))"

section \<open>Up\<close>

text \<open>
  The message of the error that \<^verbatim>\<open>Up\<close> returns for an enabled add-on whose tester
  is nil, as the source spells each one.
\<close>

fun nil_tester_error :: "addon \<Rightarrow> string" where
  "nil_tester_error NodeGroups = ''ts.ngTester == nil when AddOnNodeGroups.Enable == true''"
| "nil_tester_error ManagedNodeGroups = ''ts.mngTester == nil when AddOnManagedNodeGroups.Enable == true''"
| "nil_tester_error Conformance = ''ts.conformanceTester == nil when AddOnConformance.Enable == true''"
| "nil_tester_error CSIEBS = ''ts.csiEBSTester == nil when AddOnCSIEBS.Enable == true''"
| "nil_tester_error AppMesh = ''ts.appMeshTester == nil when AddOnAppMesh.Enable == true''"
| "nil_tester_error KubernetesDashboard = ''ts.kubernetesDashboardTester == nil when AddOnKubernetesDashboard.Enable == true''"
| "nil_tester_error PrometheusGrafana = ''ts.prometheusGrafanaTester == nil when AddOnKubernetesDashboard.Enable == true''"
| "nil_tester_error NLBHelloWorld = ''ts.nlbHelloWorldTester == nil when AddOnNLBHelloWorld.Enable == true''"
| "nil_tester_error ALB2048 = ''ts.alb2048Tester == nil when AddOnALB2048.Enable == true''"
| "nil_tester_error JobsPi = ''ts.jobsPiTester == nil when AddOnJobsPi.Enable == true''"
| "nil_tester_error JobsEcho = ''ts.jobsEchoTester == nil when AddOnJobsEcho.Enable == true''"
| "nil_tester_error CronJobs = ''ts.cronJobsTester == nil when AddOnCronJobs.Enable == true''"
| "nil_tester_error CSRsLocal = ''ts.csrsLocalTester == nil when AddOnCSRsLocal.Enable == true''"
| "nil_tester_error CSRsRemote = ''ts.csrsRemoteTester == nil when AddOnCSRsRemote.Enable == true''"
| "nil_tester_error ConfigMapsLocal = ''ts.configMapsLocalTester == nil when AddOnConfigMapsLocal.Enable == true''"
| "nil_tester_error ConfigMapsRemote = ''ts.configMapsRemoteTester == nil when AddOnConfigMapsRemote.Enable == true''"
| "nil_tester_error SecretsLocal = ''ts.secretsLocalTester == nil when AddOnSecretsLocal.Enable == true''"
| "nil_tester_error SecretsRemote = ''ts.secretsRemoteTester == nil when AddOnSecretsRemote.Enable == true''"
| "nil_tester_error Fargate = ''ts.fargateTester == nil when AddOnFargate.Enable == true''"
| "nil_tester_error IRSA = ''ts.irsaTester == nil when AddOnIRSA.Enable == true''"
| "nil_tester_error IRSAFargate = ''ts.irsaFargateTester == nil when AddOnIRSAFargate.Enable == true''"
| "nil_tester_error Wordpress = ''ts.wordPressTester == nil when AddOnWordpress.Enable == true''"
| "nil_tester_error JupyterHub = ''ts.jupyterHubTester == nil when AddOnJupyterHub.Enable == true''"
| "nil_tester_error Kubeflow = ''ts.kubeflowTester == nil when AddOnKubeflow.Enable == true''"
| "nil_tester_error HollowNodesLocal = ''ts.hollowNodesLocalTester == nil when AddOnHollowNodesLocal.Enable == true''"
| "nil_tester_error HollowNodesRemote = ''ts.hollowNodesRemoteTester == nil when AddOnHollowNodesRemote.Enable == true''"
| "nil_tester_error ClusterLoaderLocal = ''ts.clusterLoaderLocalTester == nil when AddOnClusterLoader.Enable == true''"
| "nil_tester_error ClusterLoaderRemote = ''ts.clusterLoaderRemoteTester == nil when AddOnClusterLoader.Enable == true''"
| "nil_tester_error StresserLocal = ''ts.stresserLocalTester == nil when AddOnStresserLocal.Enable == true''"
| "nil_tester_error StresserRemote = ''ts.stresserRemoteTester == nil when AddOnStresserRemote.Enable == true''"

text \<open>
  The AMI type that asks for the GPU driver: \<^verbatim>\<open>ec2config.AMITypeAL2X8664GPU\<close> for
  the node groups and \<^verbatim>\<open>aws_eks.AMITypesAl2X8664Gpu\<close> for the managed ones (constants
  of packages outside the sources at hand; both spell the same string).
\<close>

definition AMITypeAL2X8664GPU :: string where
  "AMITypeAL2X8664GPU = ''AL2_x86_64_GPU''"

definition AMITypesAl2X8664Gpu :: string where
  "AMITypesAl2X8664Gpu = ''AL2_x86_64_GPU''"

definition needGPU :: "config \<Rightarrow> bool" where
  "needGPU c =
     ((enabled c NodeGroups \<and> AMITypeAL2X8664GPU \<in> set (ASGs c))
      \<or> (enabled c ManagedNodeGroups \<and> AMITypesAl2X8664Gpu \<in> set (MNGs c)))"

fun command :: "hook \<Rightarrow> config \<Rightarrow> string" where
  "command AfterCreateCluster c = CommandAfterCreateCluster c"
| "command AfterCreateAddOns c = CommandAfterCreateAddOns c"

fun output_path :: "hook \<Rightarrow> config \<Rightarrow> string" where
  "output_path AfterCreateCluster c = CommandAfterCreateClusterOutputPath c"
| "output_path AfterCreateAddOns c = CommandAfterCreateAddOnsOutputPath c"

text \<open>
  The condition under which the node-group logs are fetched, and with which the results
  of the remote add-ons are aggregated afterwards.
\<close>

definition logs_wanted :: "config \<Rightarrow> addon \<Rightarrow> bool" where
  "logs_wanted c a = (enabled c a \<and> created c a \<and> fetch_logs c a)"

text \<open>
  The phases of \<^verbatim>\<open>Up\<close>. \<open>Step k\<close> hands the method \<open>k\<close> of the tester to
  \<^verbatim>\<open>catchInterrupt\<close> and returns its error, if any; the step \<^verbatim>\<open>createCluster\<close>
  is the one in which the handles of the enabled add-ons are built. \<open>CreateAddOn a\<close>
  is the block of add-on \<open>a\<close>, with its check of the handle.
\<close>

datatype up_phase =
    Step call
  | SleepStep nat
  | CommandHook hook
  | CreateAddOn addon
  | GPUBootstrap
  | UploadArtifacts
  | NodeFetchLogs addon
  | AggregateAll

definition aggregate :: "'w env \<Rightarrow> addon \<Rightarrow> 'w live \<Rightarrow> res \<times> 'w live" where
  "aggregate env a s =
     (case s of (c, t) \<Rightarrow>
        if enabled c a
        then (if handle t a then catchInterrupt env (AggregateResults a) s else (Panic, s))
        else (Ok, s))"

fun up_step :: "'w env \<Rightarrow> up_phase \<Rightarrow> 'w live \<Rightarrow> res \<times> 'w live" where
  "up_step env (Step k) s = catchInterrupt env k s"
| "up_step env (SleepStep n) s = (Ok, sleep n s)"
| "up_step env (CommandHook h) s =
     (case s of (c, t) \<Rightarrow>
        if command h c = [] then (Ok, s)
        else (case invoke env EvaluateCommandRefs s of
                (Some e, s1) \<Rightarrow> (Err e, s1)
              | (None, s1) \<Rightarrow>
                  (case invoke env (runCommand h) s1 of (out, s2) \<Rightarrow>
                     (case invoke env (WriteFile h) s2 of
                        (Some e, s3) \<Rightarrow>
                          (Err (''failed to write file '' @ fmt_q env (output_path h c)
                                @ '' ('' @ e @ '')''), s3)
                      | (None, s3) \<Rightarrow> (Ok, s3)))))"
| "up_step env (CreateAddOn a) s =
     (case s of (c, t) \<Rightarrow>
        if enabled c a
        then (if \<not> handle t a then (Err (nil_tester_error a), s)
              else if a = Conformance
              then (case catchInterrupt env (Create a) s of (r, s1) \<Rightarrow>
                      (case invoke env uploadToS3 s1 of (serr, s2) \<Rightarrow> (r, s2)))
              else catchInterrupt env (Create a) s)
        else (Ok, s))"
| "up_step env GPUBootstrap s =
     (case s of (c, t) \<Rightarrow>
        if needGPU c
        then (if \<not> gpuTester t then (Panic, s)
              else (case catchInterrupt env InstallNvidiaDriver s of
                      (Ok, s1) \<Rightarrow> catchInterrupt env CreateNvidiaSMI s1
                    | (Err e, s1) \<Rightarrow> (Err e, s1)
                    | (Panic, s1) \<Rightarrow> (Panic, s1)))
        else (Ok, s))"
| "up_step env UploadArtifacts s = (case invoke env uploadToS3 s of (serr, s1) \<Rightarrow> (Ok, s1))"
| "up_step env (NodeFetchLogs a) s =
     (case s of (c, t) \<Rightarrow>
        if logs_wanted c a
        then (if \<not> handle t a then (Err (nil_tester_error a), s)
              else catchInterrupt env (FetchLogs a) (sleep 15 s))
        else (Ok, s))"
| "up_step env AggregateAll s =
     (case s of (c, t) \<Rightarrow>
        if logs_wanted c NodeGroups \<or> logs_wanted c ManagedNodeGroups
        then run_steps (map (aggregate env)
               [CSRsRemote, SecretsRemote, IRSA, ConfigMapsRemote, ClusterLoaderRemote,
                StresserRemote]) s
        else (Ok, s))"

definition prerequisites :: "call list" where
  "prerequisites =
     [createS3, createEncryption, createKeyPair, createClusterRole, createVPC, createCluster]"

definition Up_steps :: "up_phase list" where
  "Up_steps =
     map Step prerequisites @
     [SleepStep 30, Step checkHealth, CommandHook AfterCreateCluster,
      CreateAddOn NodeGroups, CreateAddOn ManagedNodeGroups, GPUBootstrap,
      CreateAddOn Conformance, CreateAddOn CSIEBS, CreateAddOn AppMesh,
      CreateAddOn KubernetesDashboard, CreateAddOn PrometheusGrafana,
      Step checkHealth, UploadArtifacts,
      CreateAddOn NLBHelloWorld, CreateAddOn ALB2048, CreateAddOn JobsPi,
      CreateAddOn JobsEcho, CreateAddOn CronJobs, CreateAddOn CSRsLocal,
      CreateAddOn CSRsRemote, CreateAddOn ConfigMapsLocal, CreateAddOn ConfigMapsRemote,
      CreateAddOn SecretsLocal, CreateAddOn SecretsRemote, CreateAddOn Fargate,
      CreateAddOn IRSA, CreateAddOn IRSAFargate, CreateAddOn Wordpress,
      CreateAddOn JupyterHub, CreateAddOn Kubeflow, CreateAddOn HollowNodesLocal,
      CreateAddOn HollowNodesRemote, CreateAddOn ClusterLoaderLocal,
      CreateAddOn ClusterLoaderRemote, CreateAddOn StresserLocal,
      CreateAddOn StresserRemote,
      NodeFetchLogs NodeGroups, NodeFetchLogs ManagedNodeGroups, AggregateAll,
      Step checkHealth, CommandHook AfterCreateAddOns]"

text \<open>
  The body of \<^verbatim>\<open>Up\<close> between its \<^verbatim>\<open>defer\<close> statements and its last line,
  \<^verbatim>\<open>return ts.cfg.Sync()\<close>.
\<close>

definition Up_body :: "'w env \<Rightarrow> 'w live \<Rightarrow> res \<times> 'w live" where
  "Up_body env s =
     (case run_steps (map (up_step env) Up_steps) s of
        (Ok, s1) \<Rightarrow> (case invoke env Sync s1 of (r, s2) \<Rightarrow> (res_of r, s2))
      | (Err e, s1) \<Rightarrow> (Err e, s1)
      | (Panic, s1) \<Rightarrow> (Panic, s1))"

section \<open>Down\<close>

text \<open>
  The phases of \<open>down\<close>. \<open>DeleteAddOn g h w\<close> is one block of the sweep: it is guarded
  by the enablement and the \<^verbatim>\<open>Created\<close> flag of add-on \<open>g\<close>, calls \<^verbatim>\<open>Delete\<close> on
  the tester of add-on \<open>h\<close>, and after a successful deletion sleeps \<open>w\<close> seconds (no
  sleep for \<open>None\<close>).
\<close>

datatype down_phase =
    Infra call
  | DeleteAddOn addon addon "nat option"
  | LBWait
  | DeleteNodeGroup addon
  | VPCWait

fun down_step :: "'w env \<Rightarrow> down_phase \<Rightarrow> 'w live \<Rightarrow> res \<times> 'w live" where
  "down_step env (Infra k) s = (case invoke env k s of (r, s1) \<Rightarrow> (res_of r, s1))"
| "down_step env (DeleteAddOn g h w) s =
     (case s of (c, t) \<Rightarrow>
        if enabled c g \<and> created c g
        then (if \<not> handle t h then (Panic, s)
              else (case invoke env (Delete h) s of
                      (Some e, s1) \<Rightarrow> (Err e, s1)
                    | (None, s1) \<Rightarrow>
                        (Ok, (case w of None \<Rightarrow> s1 | Some n \<Rightarrow> sleep n s1))))
        else (Ok, s))"
| "down_step env LBWait s =
     (case s of (c, t) \<Rightarrow>
        if (enabled c NodeGroups \<or> enabled c ManagedNodeGroups)
           \<and> ((enabled c ALB2048 \<and> created c ALB2048)
                \<or> (enabled c NLBHelloWorld \<and> created c NLBHelloWorld))
        then (Ok, sleep 120 s)
        else (Ok, s))"
| "down_step env (DeleteNodeGroup g) s =
     (case s of (c, t) \<Rightarrow>
        if enabled c g \<and> handle t g
        then (case invoke env (Delete g) s of (r, s1) \<Rightarrow> (res_of r, sleep 10 s1))
        else (Ok, s))"
| "down_step env VPCWait s =
     (case s of (c, t) \<Rightarrow> if VPCCreate c then (Ok, sleep 30 s) else (Ok, s))"

definition Down_steps :: "down_phase list" where
  "Down_steps =
     [Infra deleteKeyPair,
      DeleteAddOn StresserRemote StresserRemote (Some 20),
      DeleteAddOn StresserLocal StresserLocal (Some 20),
      DeleteAddOn ClusterLoaderRemote ClusterLoaderRemote (Some 20),
      DeleteAddOn ClusterLoaderLocal ClusterLoaderRemote (Some 20),
      DeleteAddOn HollowNodesRemote HollowNodesRemote None,
      DeleteAddOn HollowNodesLocal HollowNodesLocal None,
      DeleteAddOn Kubeflow Kubeflow None,
      DeleteAddOn JupyterHub JupyterHub (Some 20),
      DeleteAddOn Wordpress Wordpress (Some 20),
      DeleteAddOn IRSAFargate IRSAFargate None,
      DeleteAddOn IRSA IRSA None,
      DeleteAddOn Fargate Fargate None,
      DeleteAddOn SecretsLocal SecretsLocal None,
      DeleteAddOn SecretsRemote SecretsRemote None,
      DeleteAddOn ConfigMapsLocal ConfigMapsLocal None,
      DeleteAddOn CSRsRemote CSRsRemote None,
      DeleteAddOn CronJobs CronJobs None,
      DeleteAddOn JobsEcho JobsEcho None,
      DeleteAddOn JobsPi JobsPi None,
      DeleteAddOn ALB2048 ALB2048 (Some 60),
      DeleteAddOn NLBHelloWorld NLBHelloWorld (Some 60),
      DeleteAddOn PrometheusGrafana PrometheusGrafana (Some 20),
      DeleteAddOn KubernetesDashboard KubernetesDashboard None,
      DeleteAddOn AppMesh AppMesh None,
      DeleteAddOn CSIEBS CSIEBS (Some 20),
      DeleteAddOn Conformance Conformance (Some 20),
      LBWait,
      DeleteNodeGroup ManagedNodeGroups,
      DeleteNodeGroup NodeGroups,
      Infra deleteCluster, Infra deleteEncryption, Infra deleteClusterRole,
      VPCWait,
      Infra deleteVPC, Infra deleteS3]"

text \<open>
  The steps of \<open>down\<close> in sequence, with the local \<^verbatim>\<open>errs\<close>: a failed step appends
  its message and the run goes on. Only a panic ends it (\<open>None\<close>).
\<close>

fun run_down ::
  "'w env \<Rightarrow> down_phase list \<Rightarrow> string list \<Rightarrow> 'w live \<Rightarrow> string list option \<times> 'w live"
where
  "run_down env [] errs s = (Some errs, s)"
| "run_down env (st # sts) errs s =
     (case down_step env st s of
        (Ok, s1) \<Rightarrow> run_down env sts errs s1
      | (Err e, s1) \<Rightarrow> run_down env sts (errs @ [e]) s1
      | (Panic, s1) \<Rightarrow> (None, s1))"

text \<open>\<^verbatim>\<open>strings.Join\<close>.\<close>

fun Join :: "string list \<Rightarrow> string \<Rightarrow> string" where
  "Join [] sep = []"
| "Join [x] sep = x"
| "Join (x # y # ys) sep = x @ sep @ Join (y # ys) sep"

text \<open>
  \<open>down\<close>. Its first line reads \<^verbatim>\<open>ts.cfg.ConfigPath\<close> and the next statement
  \<^verbatim>\<open>ts.cfg.Status.ClusterARN\<close>. The deferred function runs \<^verbatim>\<open>ts.cfg.Sync()\<close>
  whatever happens, also when a step has panicked, and drops its result.
\<close>

definition down :: "'w env \<Rightarrow> 'w Tester \<Rightarrow> res \<times> 'w Tester" where
  "down env ts =
     (case ts of
        (None, t) \<Rightarrow> (Panic, ts)
      | (Some c, t) \<Rightarrow>
          (case Status c of
             None \<Rightarrow> (Panic, (Some c, log DownStart t))
           | Some st \<Rightarrow>
               (case invoke env uploadToS3 (c, log DownStart t) of (serr, s1) \<Rightarrow>
                  (case run_down env Down_steps [] s1 of
                     (None, s2) \<Rightarrow>
                       (case invoke env Sync s2 of (d, (c3, t3)) \<Rightarrow> (Panic, (Some c3, t3)))
                   | (Some errs, s2) \<Rightarrow>
                       if 0 < length errs
                       then (case invoke env Sync s2 of (d, (c3, t3)) \<Rightarrow>
                               (Err (Join errs '', ''), (Some c3, t3)))
                       else (case invoke env Sync s2 of (r, s3) \<Rightarrow>
                               (case invoke env Sync s3 of (d, (c4, t4)) \<Rightarrow>
                                  (res_of r, (Some c4, t4))))))))"

text \<open>\<^verbatim>\<open>Down\<close> takes the mutex and calls \<open>down\<close>; runs are sequential here.\<close>

definition Down :: "'w env \<Rightarrow> 'w Tester \<Rightarrow> res \<times> 'w Tester" where
  "Down env ts = down env ts"

section \<open>Up with its deferred functions\<close>

text \<open>
  \<^verbatim>\<open>time.Duration(ts.cfg.OnFailureDeleteWaitSeconds) * time.Second\<close>, a signed 64-bit
  number of nanoseconds.
\<close>

definition waitDur :: "config \<Rightarrow> int" where
  "waitDur c = sint (OnFailureDeleteWaitSeconds c * 1000000000)"

text \<open>
  \<^verbatim>\<open>Up\<close>. Its first line reads \<^verbatim>\<open>ts.cfg.ConfigPath\<close>. The two deferred functions
  run after the body in reverse order: \<^verbatim>\<open>ts.cfg.Sync()\<close>, then the closure, which
  uploads the artifacts, reads \<^verbatim>\<open>ts.cfg.Status.Up\<close> on each of its paths, and on a
  failure with \<^verbatim>\<open>OnFailureDelete\<close> waits and calls \<open>down\<close>. The closure never
  assigns the named result \<^verbatim>\<open>err\<close>.
\<close>

definition Up :: "'w env \<Rightarrow> 'w Tester \<Rightarrow> res \<times> 'w Tester" where
  "Up env ts =
     (case ts of
        (None, t) \<Rightarrow> (Panic, ts)
      | (Some c, t) \<Rightarrow>
          (case Up_body env (c, t) of (r, s1) \<Rightarrow>
             (case invoke env Sync s1 of (d, s2) \<Rightarrow>
                (case invoke env uploadToS3 s2 of (serr, (c3, t3)) \<Rightarrow>
                   (case Status c3 of
                      None \<Rightarrow> (Panic, (Some c3, t3))
                    | Some st \<Rightarrow>
                        (case r of
                           Ok \<Rightarrow> (Ok, (Some c3, t3))
                         | Panic \<Rightarrow> (Panic, (Some c3, t3))
                         | Err e \<Rightarrow>
                             if \<not> OnFailureDelete c3 then (Err e, (Some c3, t3))
                             else (case down env
                                          (Some c3,
                                           (if 0 < waitDur c3 then log WaitBeforeCleanUp t3
                                            else t3)) of
                                     (Panic, ts5) \<Rightarrow> (Panic, ts5)
                                   | (derr, ts5) \<Rightarrow> (Err e, ts5))))))))"

section \<open>IsUp\<close>

definition IsUp :: "'w env \<Rightarrow> 'w Tester \<Rightarrow> (bool \<times> string option) \<times> 'w Tester" where
  "IsUp env ts =
     (case ts of
        (None, t) \<Rightarrow> ((False, None), ts)
      | (Some c, t) \<Rightarrow>
          (case Status c of
             None \<Rightarrow> ((False, None), ts)
           | Some st \<Rightarrow>
               if \<not> status_Up st then ((False, None), ts)
               else (case invoke env checkHealth (c, t) of
                       (r, (c1, t1)) \<Rightarrow> ((True, r), (Some c1, t1)))))"

section \<open>Notions used in the statements\<close>

subsection \<open>Reading a trace\<close>

text \<open>The collaborator calls of a trace, in order.\<close>

fun calls_of :: "event list \<Rightarrow> call list" where
  "calls_of [] = []"
| "calls_of (Invoke k r # es) = k # calls_of es"
| "calls_of (e # es) = calls_of es"

text \<open>Two configurations that differ in the \<^verbatim>\<open>Created\<close> flags at most.\<close>

definition same_but_created :: "config \<Rightarrow> config \<Rightarrow> bool" where
  "same_but_created c c' = (c' = c\<lparr>created := created c'\<rparr>)"

subsection \<open>The plan of a teardown\<close>

text \<open>The add-on whose \<^verbatim>\<open>Created\<close> flag a call may change.\<close>

fun flag_of :: "call \<Rightarrow> addon option" where
  "flag_of (Create a) = Some a"
| "flag_of (Delete a) = Some a"
| "flag_of k = None"

text \<open>
  The calls that a phase of \<open>down\<close> makes in configuration \<open>c\<close> with the handles
  \<open>h\<close>, as its guard decides: nothing here depends on what a call returns.
\<close>

fun planned :: "config \<Rightarrow> (addon \<Rightarrow> bool) \<Rightarrow> down_phase \<Rightarrow> call list" where
  "planned c h (Infra k) = [k]"
| "planned c h (DeleteAddOn g a w) = (if enabled c g \<and> created c g then [Delete a] else [])"
| "planned c h LBWait = []"
| "planned c h (DeleteNodeGroup g) = (if enabled c g \<and> h g then [Delete g] else [])"
| "planned c h VPCWait = []"

text \<open>The phase calls \<^verbatim>\<open>Delete\<close> on a tester that is nil.\<close>

fun nil_deref :: "config \<Rightarrow> (addon \<Rightarrow> bool) \<Rightarrow> down_phase \<Rightarrow> bool" where
  "nil_deref c h (DeleteAddOn g a w) = (enabled c g \<and> created c g \<and> \<not> h a)"
| "nil_deref c h p = False"

text \<open>The add-on whose \<^verbatim>\<open>Created\<close> flag guards a phase, and the add-on whose flag
  the phase may change.\<close>

fun gate_of :: "down_phase \<Rightarrow> addon option" where
  "gate_of (DeleteAddOn g a w) = Some g"
| "gate_of p = None"

fun target_of :: "down_phase \<Rightarrow> addon option" where
  "target_of (DeleteAddOn g a w) = Some a"
| "target_of (DeleteNodeGroup g) = Some g"
| "target_of (Infra k) = flag_of k"
| "target_of p = None"

text \<open>No phase changes a flag that guards a later phase: each guard then sees the flag
  as it was when the run began.\<close>

fun fresh :: "down_phase list \<Rightarrow> bool" where
  "fresh [] = True"
| "fresh (p # ps) = (list_all (\<lambda>q. gate_of q = None \<or> gate_of q \<noteq> target_of p) ps \<and> fresh ps)"

text \<open>The deletion calls that \<open>down\<close> makes when it is not stopped by a panic, and the
  condition on which it is.\<close>

definition down_plan :: "config \<Rightarrow> (addon \<Rightarrow> bool) \<Rightarrow> call list" where
  "down_plan c h = concat (map (planned c h) Down_steps)"

definition down_panics :: "config \<Rightarrow> (addon \<Rightarrow> bool) \<Rightarrow> bool" where
  "down_panics c h = list_ex (nil_deref c h) Down_steps"

text \<open>The messages of the calls of a trace that returned an error, in order.\<close>

fun errors_of :: "event list \<Rightarrow> string list" where
  "errors_of [] = []"
| "errors_of (Invoke k (Some e) # es) = e # errors_of es"
| "errors_of (ev # es) = errors_of es"

text \<open>An infrastructure phase that is not itself a method of an add-on tester.\<close>

fun plain :: "down_phase \<Rightarrow> bool" where
  "plain (Infra k) = (flag_of k = None)"
| "plain p = True"

text \<open>What was added to the trace between two states of the tester.\<close>

definition emitted :: "'w tester \<Rightarrow> 'w tester \<Rightarrow> event list" where
  "emitted t t' = drop (length (trace t)) (trace t')"

text \<open>The steps of the teardown sequence, and the messages of those that failed.\<close>

fun is_deletion :: "call \<Rightarrow> bool" where
  "is_deletion (Delete a) = True"
| "is_deletion deleteKeyPair = True"
| "is_deletion deleteCluster = True"
| "is_deletion deleteEncryption = True"
| "is_deletion deleteClusterRole = True"
| "is_deletion deleteVPC = True"
| "is_deletion deleteS3 = True"
| "is_deletion k = False"

fun failures :: "event list \<Rightarrow> string list" where
  "failures [] = []"
| "failures (Invoke k (Some e) # es) = (if is_deletion k then e # failures es else failures es)"
| "failures (ev # es) = failures es"

subsection \<open>Concrete testers and environments\<close>

text \<open>An environment in which every call returns nil, every constructor returns a
  tester and no signal arrives, one in which the listed calls fail, and one in which
  they fail with the given messages.\<close>

definition quiet_env :: "unit env" where
  "quiet_env =
     \<lparr>exec = (\<lambda>k w. (None, w)), built = (\<lambda>k w. True), signals = (\<lambda>k w. []),
      fmt_q = (\<lambda>s. s)\<rparr>"

definition failing_env :: "call list \<Rightarrow> unit env" where
  "failing_env ks =
     \<lparr>exec = (\<lambda>k w. (if k \<in> set ks then Some ''failed'' else None, w)),
      built = (\<lambda>k w. True), signals = (\<lambda>k w. []), fmt_q = (\<lambda>s. s)\<rparr>"

text \<open>A configuration with no add-on enabled and a tester without handles; \<open>only a\<close>
  is the flag set for add-on \<open>a\<close> alone.\<close>

definition failing_with :: "(call \<times> string) list \<Rightarrow> unit env" where
  "failing_with kvs =
     \<lparr>exec = (\<lambda>k w. (map_of kvs k, w)), built = (\<lambda>k w. True), signals = (\<lambda>k w. []),
      fmt_q = (\<lambda>s. s)\<rparr>"

definition base_config :: config where
  "base_config =
     \<lparr>Status = Some \<lparr>status_Up = True\<rparr>, enabled = (\<lambda>a. False), created = (\<lambda>a. False),
      fetch_logs = (\<lambda>a. False), ASGs = [], MNGs = [], OnFailureDelete = False,
      OnFailureDeleteWaitSeconds = 0, VPCCreate = False,
      CommandAfterCreateCluster = [], CommandAfterCreateClusterOutputPath = [],
      CommandAfterCreateAddOns = [], CommandAfterCreateAddOnsOutputPath = []\<rparr>"

definition base_tester :: "unit tester" where
  "base_tester =
     \<lparr>handle = (\<lambda>a. False), gpuTester = False, stopCreationCh = False,
      stopCreationChOnce = False, world = (), trace = []\<rparr>"

definition only :: "addon \<Rightarrow> addon \<Rightarrow> bool" where
  "only a b = (b = a)"

text \<open>The node groups enabled with their tester; the ALB add-on enabled, created, with
  its tester; the local cluster loader enabled, created, with its own tester (the remote
  one, not being enabled, has none).\<close>

definition ng_config :: config where
  "ng_config = base_config\<lparr>enabled := only NodeGroups\<rparr>"

definition ng_tester :: "unit tester" where
  "ng_tester = base_tester\<lparr>handle := only NodeGroups\<rparr>"

definition alb_config :: config where
  "alb_config = base_config\<lparr>enabled := only ALB2048, created := only ALB2048\<rparr>"

definition alb_tester :: "unit tester" where
  "alb_tester = base_tester\<lparr>handle := only ALB2048\<rparr>"

definition cll_config :: config where
  "cll_config = base_config\<lparr>enabled := only ClusterLoaderLocal, created := only ClusterLoaderLocal\<rparr>"

definition cll_tester :: "unit tester" where
  "cll_tester = base_tester\<lparr>handle := only ClusterLoaderLocal\<rparr>"

text \<open>
  The add-ons that have a block of their own in the sweep of \<open>down\<close>, guarded by their
  own flags and calling their own tester. The two cluster loaders are left out (the block
  of the local one calls the tester of the remote one), as are \<^verbatim>\<open>CSRsLocal\<close> and
  \<^verbatim>\<open>ConfigMapsRemote\<close>, which have no block at all.
\<close>

definition swept_addons :: "addon list" where
  "swept_addons =
     [StresserRemote, StresserLocal, HollowNodesRemote, HollowNodesLocal, Kubeflow,
      JupyterHub, Wordpress, IRSAFargate, IRSA, Fargate, SecretsLocal, SecretsRemote,
      ConfigMapsLocal, CSRsRemote, CronJobs, JobsEcho, JobsPi, ALB2048, NLBHelloWorld,
      PrometheusGrafana, KubernetesDashboard, AppMesh, CSIEBS, Conformance]"

definition node_group_addons :: "addon list" where
  "node_group_addons = [ManagedNodeGroups, NodeGroups]"

text \<open>The phase deletes add-on \<open>a\<close>.\<close>

fun deletes :: "config \<Rightarrow> (addon \<Rightarrow> bool) \<Rightarrow> addon \<Rightarrow> down_phase \<Rightarrow> bool" where
  "deletes c h a (DeleteAddOn g b w) = (b = a \<and> enabled c g \<and> created c g)"
| "deletes c h a (DeleteNodeGroup g) = (g = a \<and> enabled c g \<and> h g)"
| "deletes c h a (Infra k) = (k = Delete a)"
| "deletes c h a p = False"

text \<open>The key pair, the ALB add-on and the bucket cannot be deleted.\<close>

definition three_failures :: "unit env" where
  "three_failures =
     failing_with [(deleteKeyPair, ''no key''), (Delete ALB2048, ''no alb''), (deleteS3, ''no bucket'')]"

text \<open>The tester after \<open>down\<close>.\<close>

definition down_of :: "'w env \<Rightarrow> config \<Rightarrow> 'w tester \<Rightarrow> 'w tester" where
  "down_of env c t = snd (snd (down env (Some c, t)))"

text \<open>The add-ons that provision a cloud load balancer.\<close>

definition lb_addons :: "addon list" where
  "lb_addons = [ALB2048, NLBHelloWorld]"

text \<open>The configuration cannot be persisted; the echo jobs enabled and marked as
  created, for a tester without handles.\<close>

definition sync_env :: "unit env" where
  "sync_env = failing_with [(Sync, ''no disk'')]"

definition echo_created_config :: config where
  "echo_created_config = base_config\<lparr>enabled := only JobsEcho, created := only JobsEcho\<rparr>"

text \<open>The ALB add-on enabled and created, the node groups enabled without tester, and
  the network created by the tester.\<close>

definition lb_config :: config where
  "lb_config =
     base_config\<lparr>enabled := (\<lambda>b. b = ALB2048 \<or> b = NodeGroups), created := only ALB2048,
                  VPCCreate := True\<rparr>"

text \<open>The local cluster loader enabled and not created.\<close>

definition cll_off_config :: config where
  "cll_off_config = base_config\<lparr>enabled := only ClusterLoaderLocal\<rparr>"

text \<open>A second \<open>down\<close> on the tester that the first one left.\<close>

definition second_down :: "'w env \<Rightarrow> config \<Rightarrow> 'w tester \<Rightarrow> res \<times> 'w Tester" where
  "second_down env c t = down env (snd (down env (Some c, t)))"

subsection \<open>What a phase of Up keeps\<close>

text \<open>The number of interrupted results in a trace.\<close>

fun interrupts :: "event list \<Rightarrow> nat" where
  "interrupts [] = 0"
| "interrupts (Interrupted k # es) = Suc (interrupts es)"
| "interrupts (ev # es) = interrupts es"

text \<open>The constructor calls of \<^verbatim>\<open>createSubTesters\<close>.\<close>

fun is_constructor :: "call \<Rightarrow> bool" where
  "is_constructor (NewTester a) = True"
| "is_constructor NewGPUTester = True"
| "is_constructor k = False"

text \<open>
  The collaborator calls that a phase of \<^verbatim>\<open>Up\<close> can make. The step
  \<^verbatim>\<open>createCluster\<close> comprises the constructor calls and the \<^verbatim>\<open>Sync\<close> of
  \<^verbatim>\<open>createSubTesters\<close>.
\<close>

fun phase_call :: "up_phase \<Rightarrow> call \<Rightarrow> bool" where
  "phase_call (Step j) k = (k = j \<or> (j = createCluster \<and> (is_constructor k \<or> k = Sync)))"
| "phase_call (SleepStep n) k = False"
| "phase_call (CommandHook h) k = (k = EvaluateCommandRefs \<or> k = runCommand h \<or> k = WriteFile h)"
| "phase_call (CreateAddOn a) k = (k = Create a \<or> (a = Conformance \<and> k = uploadToS3))"
| "phase_call GPUBootstrap k = (k = InstallNvidiaDriver \<or> k = CreateNvidiaSMI)"
| "phase_call UploadArtifacts k = (k = uploadToS3)"
| "phase_call (NodeFetchLogs a) k = (k = FetchLogs a)"
| "phase_call AggregateAll k =
     (k \<in> set (map AggregateResults
        [CSRsRemote, SecretsRemote, IRSA, ConfigMapsRemote, ClusterLoaderRemote, StresserRemote]))"

text \<open>
  What every phase of \<^verbatim>\<open>Up\<close> keeps, from a state \<open>s\<close> to the state \<open>s'\<close> in which
  it ends with result \<open>r\<close>: the configuration changes in its \<^verbatim>\<open>Created\<close> flags at
  most, the trace grows, \<open>down\<close> is not entered, at most one interrupted result is
  handed back and none when the phase returns nil, and every call made satisfies \<open>P\<close>.
\<close>

definition step_rel :: "(call \<Rightarrow> bool) \<Rightarrow> 'w live \<Rightarrow> res \<Rightarrow> 'w live \<Rightarrow> bool" where
  "step_rel P s r s' =
     (same_but_created (fst s) (fst s')
      \<and> trace (snd s') = trace (snd s) @ emitted (snd s) (snd s')
      \<and> DownStart \<notin> set (emitted (snd s) (snd s'))
      \<and> interrupts (emitted (snd s) (snd s')) \<le> 1
      \<and> (r = Ok \<longrightarrow> interrupts (emitted (snd s) (snd s')) = 0)
      \<and> list_all P (calls_of (emitted (snd s) (snd s'))))"

text \<open>
  The calls that provision or check something: the steps of \<^verbatim>\<open>Up\<close> proper, as
  opposed to the constructors, the persisting of the configuration, the upload of
  artifacts and the deletions.
\<close>

fun provisioning :: "call \<Rightarrow> bool" where
  "provisioning createS3 = True"
| "provisioning createEncryption = True"
| "provisioning createKeyPair = True"
| "provisioning createClusterRole = True"
| "provisioning createVPC = True"
| "provisioning createCluster = True"
| "provisioning checkHealth = True"
| "provisioning EvaluateCommandRefs = True"
| "provisioning (runCommand h) = True"
| "provisioning (WriteFile h) = True"
| "provisioning InstallNvidiaDriver = True"
| "provisioning CreateNvidiaSMI = True"
| "provisioning (Create a) = True"
| "provisioning (FetchLogs a) = True"
| "provisioning (AggregateResults a) = True"
| "provisioning k = False"

text \<open>The calls of the clean-up: what the deferred functions of \<^verbatim>\<open>Up\<close> and
  \<open>down\<close> call.\<close>

definition cleanup_call :: "call \<Rightarrow> bool" where
  "cleanup_call k = (k = Sync \<or> k = uploadToS3 \<or> is_deletion k)"

subsection \<open>Concrete runs of Up\<close>

text \<open>The phases of \<^verbatim>\<open>Up\<close> before the block that creates add-on \<open>a\<close>.\<close>

definition before_create :: "addon \<Rightarrow> up_phase list" where
  "before_create a = takeWhile (\<lambda>p. p \<noteq> CreateAddOn a) Up_steps"

text \<open>The base configuration with \<^verbatim>\<open>OnFailureDelete\<close>; the tester after
  \<^verbatim>\<open>Up\<close>.\<close>

definition rollback_config :: config where
  "rollback_config = base_config\<lparr>OnFailureDelete := True\<rparr>"

definition Up_of :: "'w env \<Rightarrow> config \<Rightarrow> 'w tester \<Rightarrow> 'w tester" where
  "Up_of env c t = snd (snd (Up env (Some c, t)))"

text \<open>The key pair cannot be created, with \<^verbatim>\<open>OnFailureDelete\<close> set: the state
  after the first two prerequisites, and the state in which the third one ends.\<close>

definition key_pair_env :: "unit env" where
  "key_pair_env = failing_with [(createKeyPair, ''no key pair'')]"

definition after_two :: "unit live" where
  "after_two =
     snd (run_steps (map (up_step key_pair_env) (map Step (take 2 prerequisites)))
            (rollback_config, base_tester))"

definition at_third :: "unit live" where
  "at_third = snd (catchInterrupt key_pair_env (prerequisites ! 2) after_two)"

text \<open>
  Testers resumed from a previous state: \<^verbatim>\<open>New\<close> could not create the Kubernetes
  client, so it did not call \<^verbatim>\<open>createSubTesters\<close> and no handle exists, while the
  configuration loaded from disk has an add-on enabled and marked as created (the pi
  jobs in one, Wordpress in the other) and \<^verbatim>\<open>OnFailureDelete\<close> set. The bucket,
  or the network, cannot be created.
\<close>

definition resumed_config :: config where
  "resumed_config =
     base_config\<lparr>enabled := only JobsPi, created := only JobsPi, OnFailureDelete := True\<rparr>"

definition bucket_env :: "unit env" where
  "bucket_env = failing_with [(createS3, ''no bucket'')]"

definition wordpress_config :: config where
  "wordpress_config =
     base_config\<lparr>enabled := only Wordpress, created := only Wordpress, OnFailureDelete := True\<rparr>"

definition vpc_env :: "unit env" where
  "vpc_env = failing_with [(createVPC, ''no vpc'')]"

text \<open>The managed node groups enabled, without tester.\<close>

definition mng_config :: config where
  "mng_config = base_config\<lparr>enabled := only ManagedNodeGroups\<rparr>"

text \<open>
  The constructor of one add-on tester fails and returns no tester, in a block of
  \<^verbatim>\<open>createSubTesters\<close> that does not look at the error: the conformance add-on
  enabled on a new cluster, and the CSI EBS add-on enabled and marked as created in a
  configuration loaded from disk, with \<^verbatim>\<open>OnFailureDelete\<close> set.
\<close>

definition no_tester_env :: "addon \<Rightarrow> unit env" where
  "no_tester_env a =
     \<lparr>exec = (\<lambda>k w. (if k = NewTester a then Some ''no tester'' else None, w)),
      built = (\<lambda>k w. k \<noteq> NewTester a), signals = (\<lambda>k w. []), fmt_q = (\<lambda>s. s)\<rparr>"

definition conformance_config :: config where
  "conformance_config = base_config\<lparr>enabled := only Conformance\<rparr>"

definition csi_config :: config where
  "csi_config =
     base_config\<lparr>enabled := only CSIEBS, created := only CSIEBS, OnFailureDelete := True\<rparr>"

text \<open>The state in which \<^verbatim>\<open>Up\<close> reaches the block of the conformance add-on.\<close>

definition at_conformance :: "unit live" where
  "at_conformance =
     snd (run_steps (map (up_step (no_tester_env Conformance)) (before_create Conformance))
            (conformance_config, base_tester))"

text \<open>A tester without configuration, a configuration whose status is not up, an
  environment in which a process signal and a stop request arrive during the first step,
  and one in which the health check fails.\<close>

definition nil_config_Tester :: "unit Tester" where
  "nil_config_Tester = (None, base_tester)"

definition down_config :: config where
  "down_config = base_config\<lparr>Status := Some \<lparr>status_Up = False\<rparr>\<rparr>"

definition racing_env :: "unit env" where
  "racing_env =
     \<lparr>exec = (\<lambda>k w. (None, w)), built = (\<lambda>k w. True),
      signals = (\<lambda>k w. if k = createS3 then [OsSignal, StopRequest] else []),
      fmt_q = (\<lambda>s. s)\<rparr>"

definition unhealthy_env :: "unit env" where
  "unhealthy_env = failing_with [(checkHealth, ''health check failed'')]"

text \<open>The six fixed infrastructure deletions of \<open>down\<close>.\<close>

fun is_infra :: "call \<Rightarrow> bool" where
  "is_infra deleteKeyPair = True"
| "is_infra deleteCluster = True"
| "is_infra deleteEncryption = True"
| "is_infra deleteClusterRole = True"
| "is_infra deleteVPC = True"
| "is_infra deleteS3 = True"
| "is_infra k = False"

section \<open>Calls, traces and the frame of a call\<close>

lemma calls_of_append: "calls_of (xs @ ys) = calls_of xs @ calls_of ys"
  by (induction xs rule: calls_of.induct) auto

lemma same_but_created_refl [simp]: "same_but_created c c"
  by (simp add: same_but_created_def)

lemma same_but_created_upd [simp]: "same_but_created c (c\<lparr>created := f\<rparr>)"
  by (simp add: same_but_created_def)

lemma same_but_created_trans:
  "same_but_created c c1 \<Longrightarrow> same_but_created c1 c2 \<Longrightarrow> same_but_created c c2"
  unfolding same_but_created_def
  by (metis config.surjective config.update_convs(3))

lemma persisted_same [simp]: "same_but_created c (persisted k r c)"
  by (cases "(k, r, c)" rule: persisted.cases) (auto simp: same_but_created_def)

lemma invoke_facts:
  assumes "invoke env k (c, t) = (r, (c', t'))"
  shows "trace t' = trace t @ [Invoke k r]" "handle t' = handle t"
    "c' = persisted k r c"
  using assms by (auto simp: invoke_def log_def split: prod.splits)

lemma invoke_stop:
  assumes "invoke env k (c, t) = (r, (c', t'))"
  shows "gpuTester t' = gpuTester t"
    "stopCreationCh t' = stopCreationCh t" "stopCreationChOnce t' = stopCreationChOnce t"
  using assms by (auto simp: invoke_def log_def split: prod.splits)

lemma invoke_world:
  assumes "invoke env k (c, t) = (r, (c', t'))"
  shows "exec env k (world t) = (r, world t')"
  using assms by (auto simp: invoke_def log_def split: prod.splits)

lemma sleep_facts:
  assumes "sleep n (c, t) = (c', t')"
  shows "trace t' = trace t @ [Sleep n]" "handle t' = handle t" "c' = c" "world t' = world t"
  using assms by (auto simp: sleep_def log_def)

section \<open>The phases of down\<close>

lemma errors_of_append: "errors_of (xs @ ys) = errors_of xs @ errors_of ys"
  by (induction xs rule: errors_of.induct) auto

lemma persisted_created:
  "created (persisted k r c) b = (if flag_of k = Some b \<and> r = None then (\<exists>a. k = Create a) else created c b)"
  by (cases "(k, r, c)" rule: persisted.cases) auto

lemma persisted_enabled [simp]: "enabled (persisted k r c) = enabled c"
  by (cases "(k, r, c)" rule: persisted.cases) auto

lemma persisted_other [simp]: "Status (persisted k r c) = Status c"
  "VPCCreate (persisted k r c) = VPCCreate c" "OnFailureDelete (persisted k r c) = OnFailureDelete c"
  "OnFailureDeleteWaitSeconds (persisted k r c) = OnFailureDeleteWaitSeconds c"
  by (cases "(k, r, c)" rule: persisted.cases; simp)+

lemma down_step_panic:
  "(fst (down_step env p (c, t)) = Panic) = nil_deref c (handle t) p"
proof (cases p)
  case (Infra k)
  then show ?thesis
    by (cases "invoke env k (c, t)"; cases "fst (invoke env k (c, t))") auto
next
  case (DeleteAddOn g a w)
  then show ?thesis
    by (cases "invoke env (Delete a) (c, t)"; cases "fst (invoke env (Delete a) (c, t))") auto
next
  case (DeleteNodeGroup g)
  then show ?thesis
    by (cases "invoke env (Delete g) (c, t)"; cases "fst (invoke env (Delete g) (c, t))") auto
qed auto

lemma down_step_facts:
  assumes "down_step env p (c, t) = (r, (c', t'))" "r \<noteq> Panic"
  shows "\<exists>evs. trace t' = trace t @ evs \<and> calls_of evs = planned c (handle t) p
           \<and> errors_of evs = (case r of Err e \<Rightarrow> [e] | _ \<Rightarrow> [])"
    and "handle t' = handle t" and "enabled c' = enabled c"
    and "\<forall>b. target_of p \<noteq> Some b \<longrightarrow> created c' b = created c b"
proof -
  have "(\<exists>evs. trace t' = trace t @ evs \<and> calls_of evs = planned c (handle t) p
           \<and> errors_of evs = (case r of Err e \<Rightarrow> [e] | _ \<Rightarrow> []))
      \<and> handle t' = handle t \<and> enabled c' = enabled c
      \<and> (\<forall>b. target_of p \<noteq> Some b \<longrightarrow> created c' b = created c b)"
  proof (cases p)
    case (Infra k)
    obtain r0 c0 t0 where i: "invoke env k (c, t) = (r0, (c0, t0))"
      by (metis prod.exhaust)
    from invoke_facts[OF i] assms Infra i show ?thesis
      by (cases r0) (auto simp: persisted_created)
  next
    case (DeleteAddOn g a w)
    obtain r0 c0 t0 where i: "invoke env (Delete a) (c, t) = (r0, (c0, t0))"
      by (metis prod.exhaust)
    from invoke_facts[OF i] assms DeleteAddOn i show ?thesis
      by (cases r0; cases w) (auto simp: persisted_created sleep_def log_def split: if_splits)
  next
    case LBWait
    with assms show ?thesis by (auto simp: sleep_def log_def split: if_splits)
  next
    case (DeleteNodeGroup g)
    obtain r0 c0 t0 where i: "invoke env (Delete g) (c, t) = (r0, (c0, t0))"
      by (metis prod.exhaust)
    from invoke_facts[OF i] assms DeleteNodeGroup i show ?thesis
      by (cases r0) (auto simp: persisted_created sleep_def log_def split: if_splits)
  next
    case VPCWait
    with assms show ?thesis by (auto simp: sleep_def log_def split: if_splits)
  qed
  then show "\<exists>evs. trace t' = trace t @ evs \<and> calls_of evs = planned c (handle t) p
           \<and> errors_of evs = (case r of Err e \<Rightarrow> [e] | _ \<Rightarrow> [])"
    and "handle t' = handle t" and "enabled c' = enabled c"
    and "\<forall>b. target_of p \<noteq> Some b \<longrightarrow> created c' b = created c b"
    by blast+
qed

lemma down_step_frame:
  assumes "down_step env p (c, t) = (r, (c', t'))"
  shows "same_but_created c c'" and "handle t' = handle t"
    and "\<exists>evs. trace t' = trace t @ evs \<and> DownStart \<notin> set evs
            \<and> (\<forall>a. Invoke (Delete a) None \<in> set evs \<longrightarrow> \<not> created c' a)
            \<and> (\<forall>a r. Invoke (Delete a) r \<in> set evs \<longrightarrow>
                   (\<exists>g w. p = DeleteAddOn g a w \<and> enabled c g \<and> created c g) \<or> p = DeleteNodeGroup a
                   \<or> p = Infra (Delete a))"
    and "plain p \<Longrightarrow> created c' b \<Longrightarrow> created c b"
proof -
  have "same_but_created c c' \<and> handle t' = handle t
    \<and> (\<exists>evs. trace t' = trace t @ evs \<and> DownStart \<notin> set evs
            \<and> (\<forall>a. Invoke (Delete a) None \<in> set evs \<longrightarrow> \<not> created c' a)
            \<and> (\<forall>a r. Invoke (Delete a) r \<in> set evs \<longrightarrow>
                   (\<exists>g w. p = DeleteAddOn g a w \<and> enabled c g \<and> created c g) \<or> p = DeleteNodeGroup a
                   \<or> p = Infra (Delete a)))
    \<and> (plain p \<longrightarrow> created c' b \<longrightarrow> created c b)"
  proof (cases p)
    case (Infra k)
    obtain r0 c0 t0 where i: "invoke env k (c, t) = (r0, (c0, t0))"
      by (metis prod.exhaust)
    from invoke_facts[OF i] assms Infra i show ?thesis
      by (cases r0) (auto simp: persisted_created)
  next
    case (DeleteAddOn g a w)
    obtain r0 c0 t0 where i: "invoke env (Delete a) (c, t) = (r0, (c0, t0))"
      by (metis prod.exhaust)
    from invoke_facts[OF i] assms DeleteAddOn i show ?thesis
      by (cases r0; cases w)
         (auto simp: persisted_created sleep_def log_def
               split: if_splits)
  next
    case LBWait
    with assms show ?thesis
      by (auto simp: sleep_def log_def split: if_splits)
  next
    case (DeleteNodeGroup g)
    obtain r0 c0 t0 where i: "invoke env (Delete g) (c, t) = (r0, (c0, t0))"
      by (metis prod.exhaust)
    from invoke_facts[OF i] assms DeleteNodeGroup i show ?thesis
      by (cases r0)
         (auto simp: persisted_created sleep_def log_def
               split: if_splits)
  next
    case VPCWait
    with assms show ?thesis
      by (auto simp: sleep_def log_def split: if_splits)
  qed
  then show "same_but_created c c'" and "handle t' = handle t"
    and "\<exists>evs. trace t' = trace t @ evs \<and> DownStart \<notin> set evs
            \<and> (\<forall>a. Invoke (Delete a) None \<in> set evs \<longrightarrow> \<not> created c' a)
            \<and> (\<forall>a r. Invoke (Delete a) r \<in> set evs \<longrightarrow>
                   (\<exists>g w. p = DeleteAddOn g a w \<and> enabled c g \<and> created c g) \<or> p = DeleteNodeGroup a
                   \<or> p = Infra (Delete a))"
    and "plain p \<Longrightarrow> created c' b \<Longrightarrow> created c b"
    by blast+
qed

lemma same_but_created_enabled: "same_but_created c c' \<Longrightarrow> enabled c' = enabled c"
  unfolding same_but_created_def by (drule arg_cong[where f = enabled]) simp

lemma planned_cong:
  "enabled c' = enabled c \<Longrightarrow> (\<forall>g. gate_of q = Some g \<longrightarrow> created c' g = created c g)
     \<Longrightarrow> planned c' h q = planned c h q"
  by (cases q) auto

lemma nil_deref_cong:
  "enabled c' = enabled c \<Longrightarrow> (\<forall>g. gate_of q = Some g \<longrightarrow> created c' g = created c g)
     \<Longrightarrow> nil_deref c' h q = nil_deref c h q"
  by (cases q) auto

lemma run_down_plan:
  "fresh ps \<Longrightarrow> run_down env ps errs (c, t) = (Some errs', (c', t')) \<Longrightarrow>
     (\<exists>evs. trace t' = trace t @ evs \<and> calls_of evs = concat (map (planned c (handle t)) ps)
         \<and> errs' = errs @ errors_of evs)"
proof (induction ps arbitrary: errs c t)
  case Nil
  then show ?case by simp
next
  case (Cons p ps)
  obtain r c1 t1 where st: "down_step env p (c, t) = (r, (c1, t1))"
    by (metis prod.exhaust)
  from Cons.prems(2) st have np: "r \<noteq> Panic" by auto
  from down_step_facts[OF st np] obtain evs1 where
    e1: "trace t1 = trace t @ evs1" "calls_of evs1 = planned c (handle t) p"
        "errors_of evs1 = (case r of Err e \<Rightarrow> [e] | _ \<Rightarrow> [])"
    and h1: "handle t1 = handle t" and en1: "enabled c1 = enabled c"
    and cr1: "\<forall>b. target_of p \<noteq> Some b \<longrightarrow> created c1 b = created c b"
    by blast
  from Cons.prems(1) have fr: "fresh ps"
    and gt: "\<forall>q\<in>set ps. gate_of q = None \<or> gate_of q \<noteq> target_of p"
    by (auto simp: list_all_iff)
  have same: "map (planned c1 (handle t1)) ps = map (planned c (handle t)) ps"
  proof (rule map_cong[OF refl])
    fix q assume "q \<in> set ps"
    with gt cr1 have "\<forall>g. gate_of q = Some g \<longrightarrow> created c1 g = created c g" by auto
    with en1 h1 show "planned c1 (handle t1) q = planned c (handle t) q"
      using planned_cong[of c1 c q "handle t"] by simp
  qed
  define errs1 where "errs1 = (case r of Err e \<Rightarrow> errs @ [e] | _ \<Rightarrow> errs)"
  from Cons.prems(2) st np have run: "run_down env ps errs1 (c1, t1) = (Some errs', (c', t'))"
    by (cases r) (auto simp: errs1_def)
  from Cons.IH[OF fr run] obtain evs2 where
    e2: "trace t' = trace t1 @ evs2" "calls_of evs2 = concat (map (planned c1 (handle t1)) ps)"
        "errs' = errs1 @ errors_of evs2"
    by blast
  have "errs1 = errs @ errors_of evs1"
    using e1(3) np by (cases r) (auto simp: errs1_def)
  with e1 e2 same show ?case
    by (intro exI[of _ "evs1 @ evs2"]) (simp add: calls_of_append errors_of_append)
qed

lemma run_down_panics:
  "fresh ps \<Longrightarrow> (fst (run_down env ps errs (c, t)) = None) = list_ex (nil_deref c (handle t)) ps"
proof (induction ps arbitrary: errs c t)
  case Nil
  then show ?case by simp
next
  case (Cons p ps)
  obtain r c1 t1 where st: "down_step env p (c, t) = (r, (c1, t1))"
    by (metis prod.exhaust)
  from Cons.prems(1) have fr: "fresh ps"
    and gt: "\<forall>q\<in>set ps. gate_of q = None \<or> gate_of q \<noteq> target_of p"
    by (auto simp: list_all_iff)
  show ?case
  proof (cases "r = Panic")
    case True
    with st down_step_panic[of env p c t] show ?thesis by simp
  next
    case False
    with st down_step_panic[of env p c t] have nd: "\<not> nil_deref c (handle t) p" by simp
    from down_step_facts[OF st False] have h1: "handle t1 = handle t" and en1: "enabled c1 = enabled c"
      and cr1: "\<forall>b. target_of p \<noteq> Some b \<longrightarrow> created c1 b = created c b"
      by blast+
    have same: "list_ex (nil_deref c1 (handle t1)) ps = list_ex (nil_deref c (handle t)) ps"
    proof -
      have "\<forall>q\<in>set ps. nil_deref c1 (handle t1) q = nil_deref c (handle t) q"
      proof
        fix q assume "q \<in> set ps"
        with gt cr1 have "\<forall>g. gate_of q = Some g \<longrightarrow> created c1 g = created c g" by auto
        with en1 h1 show "nil_deref c1 (handle t1) q = nil_deref c (handle t) q"
          using nil_deref_cong[of c1 c q "handle t"] by simp
      qed
      then show ?thesis by (auto simp: list_ex_iff)
    qed
    from st False Cons.IH[OF fr, of _ c1 t1] same nd show ?thesis
      by (cases r) auto
  qed
qed

lemma run_down_frame:
  "run_down env ps errs (c, t) = (r, (c', t')) \<Longrightarrow>
     same_but_created c c' \<and> handle t' = handle t
     \<and> (\<exists>evs. trace t' = trace t @ evs \<and> DownStart \<notin> set evs)"
proof (induction ps arbitrary: errs c t)
  case Nil
  then show ?case by (simp add:)
next
  case (Cons p ps)
  obtain r1 c1 t1 where st: "down_step env p (c, t) = (r1, (c1, t1))"
    by (metis prod.exhaust)
  note f = down_step_frame(1-3)[OF st]
  show ?case
  proof (cases "r1 = Panic")
    case True
    with Cons.prems st f show ?thesis by auto
  next
    case False
    define errs1 where "errs1 = (case r1 of Err e \<Rightarrow> errs @ [e] | _ \<Rightarrow> errs)"
    from Cons.prems st False have run: "run_down env ps errs1 (c1, t1) = (r, (c', t'))"
      by (cases r1) (auto simp: errs1_def)
    from Cons.IH[OF run] obtain evs2 where
      i: "same_but_created c1 c'" "handle t' = handle t1" "trace t' = trace t1 @ evs2"
         "DownStart \<notin> set evs2"
      by blast
    from f(3) obtain evs1 where j: "trace t1 = trace t @ evs1" "DownStart \<notin> set evs1"
      by blast
    from same_but_created_trans[OF f(1) i(1)] i j f(2) show ?thesis
      by auto
  qed
qed

lemma failures_append: "failures (xs @ ys) = failures xs @ failures ys"
  by (induction xs rule: failures.induct) auto

lemma failures_errors: "list_all is_deletion (calls_of evs) \<Longrightarrow> failures evs = errors_of evs"
  by (induction evs rule: errors_of.induct) auto

lemma fresh_Down_steps: "fresh Down_steps"
  by (simp add: Down_steps_def)

lemma plain_Down_steps: "list_all plain Down_steps"
  by (simp add: Down_steps_def)

lemma planned_deletions: "p \<in> set Down_steps \<Longrightarrow> list_all is_deletion (planned c h p)"
  by (auto simp: Down_steps_def)

lemma down_plan_deletions: "list_all is_deletion (down_plan c h)"
  using planned_deletions by (auto simp: down_plan_def list_all_iff)

lemma emitted_append [simp]: "trace t' = trace t @ evs \<Longrightarrow> emitted t t' = evs"
  by (simp add: emitted_def)

lemma down_panic_iff:
  assumes "Status c = Some st"
  shows "(fst (down env (Some c, t)) = Panic) = down_panics c (handle t)"
proof -
  obtain serr c1 t1 where u: "invoke env uploadToS3 (c, log DownStart t) = (serr, (c1, t1))"
    by (metis prod.exhaust)
  from invoke_facts[OF u] have c1: "c1 = c" and h1: "handle t1 = handle t"
    by (simp_all add: log_def)
  obtain ro s2 where rd: "run_down env Down_steps [] (c1, t1) = (ro, s2)"
    by (metis prod.exhaust)
  have "(ro = None) = down_panics c (handle t)"
    using run_down_panics[OF fresh_Down_steps, of env "[]" c1 t1] rd c1 h1
    by (simp add: down_panics_def)
  moreover have "(fst (down env (Some c, t)) = Panic) = (ro = None)"
    using assms u rd
    by (cases ro) (auto simp: down_def split: prod.splits if_splits intro: res_of.elims)
  ultimately show ?thesis by simp
qed

lemma emitted_trans:
  "trace t1 = trace t @ evs1 \<Longrightarrow> trace t2 = trace t1 @ evs2 \<Longrightarrow> emitted t t2 = evs1 @ evs2"
  by (simp add: emitted_def)

lemma run_down_effects:
  "list_all plain ps \<Longrightarrow> run_down env ps errs (c, t) = (ro, (c', t')) \<Longrightarrow>
     (\<forall>b. created c' b \<longrightarrow> created c b) \<and>
     (\<exists>evs. trace t' = trace t @ evs
        \<and> (\<forall>a. Invoke (Delete a) None \<in> set evs \<longrightarrow> \<not> created c' a)
        \<and> (\<forall>a r. Invoke (Delete a) r \<in> set evs \<longrightarrow>
               (\<exists>g w. DeleteAddOn g a w \<in> set ps \<and> enabled c g \<and> created c g)
               \<or> DeleteNodeGroup a \<in> set ps))"
proof (induction ps arbitrary: errs c t)
  case Nil
  then show ?case by simp
next
  case (Cons p ps)
  obtain r1 c1 t1 where st: "down_step env p (c, t) = (r1, (c1, t1))"
    by (metis prod.exhaust)
  from Cons.prems(1) have pl: "plain p" and pls: "list_all plain ps" by simp_all
  from down_step_frame(3)[OF st] obtain evs1 where
    e1: "trace t1 = trace t @ evs1"
        "\<forall>a. Invoke (Delete a) None \<in> set evs1 \<longrightarrow> \<not> created c1 a"
        "\<forall>a r. Invoke (Delete a) r \<in> set evs1 \<longrightarrow>
           (\<exists>g w. p = DeleteAddOn g a w \<and> enabled c g \<and> created c g) \<or> p = DeleteNodeGroup a
           \<or> p = Infra (Delete a)"
    by blast
  have mono1: "\<forall>b. created c1 b \<longrightarrow> created c b"
    using down_step_frame(4)[OF st pl] by blast
  have en1: "enabled c1 = enabled c"
    using down_step_frame(1)[OF st] by (rule same_but_created_enabled)
  from pl have noinfra: "\<And>a. p \<noteq> Infra (Delete a)" by auto
  show ?case
  proof (cases "r1 = Panic")
    case True
    with Cons.prems(2) st have "c' = c1" "t' = t1" by auto
    with e1 mono1 noinfra show ?thesis
      by (intro conjI exI[of _ evs1]) (auto, blast+)
  next
    case False
    define errs1 where "errs1 = (case r1 of Err e \<Rightarrow> errs @ [e] | _ \<Rightarrow> errs)"
    from Cons.prems(2) st False have run: "run_down env ps errs1 (c1, t1) = (ro, (c', t'))"
      by (cases r1) (auto simp: errs1_def)
    from Cons.IH[OF pls run] obtain evs2 where
      mono2: "\<forall>b. created c' b \<longrightarrow> created c1 b" and
      e2: "trace t' = trace t1 @ evs2"
          "\<forall>a. Invoke (Delete a) None \<in> set evs2 \<longrightarrow> \<not> created c' a"
          "\<forall>a r. Invoke (Delete a) r \<in> set evs2 \<longrightarrow>
             (\<exists>g w. DeleteAddOn g a w \<in> set ps \<and> enabled c1 g \<and> created c1 g)
             \<or> DeleteNodeGroup a \<in> set ps"
      by blast
    have A: "\<forall>b. created c' b \<longrightarrow> created c b" using mono1 mono2 by blast
    have B: "trace t' = trace t @ (evs1 @ evs2)" using e1(1) e2(1) by simp
    have C: "\<forall>a. Invoke (Delete a) None \<in> set (evs1 @ evs2) \<longrightarrow> \<not> created c' a"
      using e1(2) e2(2) mono2 by auto
    have D: "\<forall>a r. Invoke (Delete a) r \<in> set (evs1 @ evs2) \<longrightarrow>
               (\<exists>g w. DeleteAddOn g a w \<in> set (p # ps) \<and> enabled c g \<and> created c g)
               \<or> DeleteNodeGroup a \<in> set (p # ps)"
    proof (intro allI impI)
      fix a r assume "Invoke (Delete a) r \<in> set (evs1 @ evs2)"
      then consider "Invoke (Delete a) r \<in> set evs1" | "Invoke (Delete a) r \<in> set evs2" by auto
      then show "(\<exists>g w. DeleteAddOn g a w \<in> set (p # ps) \<and> enabled c g \<and> created c g)
               \<or> DeleteNodeGroup a \<in> set (p # ps)"
      proof cases
        case 1
        with e1(3) noinfra show ?thesis by (metis list.set_intros(1))
      next
        case 2
        with e2(3) have "(\<exists>g w. DeleteAddOn g a w \<in> set ps \<and> enabled c1 g \<and> created c1 g)
             \<or> DeleteNodeGroup a \<in> set ps" by blast
        with en1 mono1 show ?thesis by (metis list.set_intros(2))
      qed
    qed
    from A B C D show ?thesis by blast
  qed
qed

lemma down_frame:
  assumes "down env (Some c, t) = (r, (co, t'))"
  shows "\<exists>c' evs. co = Some c' \<and> same_but_created c c' \<and> handle t' = handle t
           \<and> trace t' = trace t @ DownStart # evs \<and> DownStart \<notin> set evs
           \<and> (\<forall>b. created c' b \<longrightarrow> created c b)
           \<and> (\<forall>a. Invoke (Delete a) None \<in> set evs \<longrightarrow> \<not> created c' a)
           \<and> (\<forall>a r. Invoke (Delete a) r \<in> set evs \<longrightarrow>
                 (\<exists>g w. DeleteAddOn g a w \<in> set Down_steps \<and> enabled c g \<and> created c g)
                 \<or> DeleteNodeGroup a \<in> set Down_steps)"
proof (cases "Status c")
  case None
  with assms show ?thesis by (auto simp: down_def log_def)
next
  case (Some st)
  obtain serr c1 t1 where u: "invoke env uploadToS3 (c, log DownStart t) = (serr, (c1, t1))"
    by (metis prod.exhaust)
  from invoke_facts[OF u] have c1: "c1 = c" and h1: "handle t1 = handle t"
    and tr1: "trace t1 = trace t @ [DownStart, Invoke uploadToS3 serr]"
    by (simp_all add: log_def)
  obtain ro c2 t2 where rd: "run_down env Down_steps [] (c1, t1) = (ro, (c2, t2))"
    by (metis prod.exhaust)
  from run_down_frame[OF rd] obtain evs where
    f: "same_but_created c1 c2" "handle t2 = handle t1" "trace t2 = trace t1 @ evs"
       "DownStart \<notin> set evs"
    by blast
  from run_down_effects[OF plain_Down_steps rd] f(3) have
    g: "\<forall>b. created c2 b \<longrightarrow> created c1 b"
       "\<forall>a. Invoke (Delete a) None \<in> set evs \<longrightarrow> \<not> created c2 a"
       "\<forall>a r. Invoke (Delete a) r \<in> set evs \<longrightarrow>
               (\<exists>g w. DeleteAddOn g a w \<in> set Down_steps \<and> enabled c1 g \<and> created c1 g)
               \<or> DeleteNodeGroup a \<in> set Down_steps"
    by auto
  obtain d1 c3 t3 where s1: "invoke env Sync (c2, t2) = (d1, (c3, t3))"
    by (metis prod.exhaust)
  obtain d2 c4 t4 where s2: "invoke env Sync (c3, t3) = (d2, (c4, t4))"
    by (metis prod.exhaust)
  note i1 = invoke_facts[OF s1] and i2 = invoke_facts[OF s2]
  have one: "co = Some c2 \<and> handle t' = handle t \<and>
      (trace t' = trace t @ DownStart # (Invoke uploadToS3 serr # evs @ [Invoke Sync d1])
       \<or> trace t' = trace t @ DownStart # (Invoke uploadToS3 serr # evs @ [Invoke Sync d1, Invoke Sync d2]))"
    using assms Some u rd s1 s2 i1 i2 f(2,3) h1 tr1
    by (cases ro) (auto simp: down_def split: if_splits)
  then show ?thesis
    using f(1,4) g c1
    by (elim conjE disjE)
       ((intro exI[of _ c2] exI[of _ "Invoke uploadToS3 serr # evs @ [Invoke Sync d1]"]
               exI[of _ "Invoke uploadToS3 serr # evs @ [Invoke Sync d1, Invoke Sync d2]"]), auto)+
qed

lemma down_returns:
  assumes "down env (Some c, t) = (r, (co, t'))" "r \<noteq> Panic"
  shows "\<exists>serr evs syncs. trace t' = trace t @ DownStart # Invoke uploadToS3 serr # evs @ syncs
           \<and> calls_of evs = down_plan c (handle t)
           \<and> (if errors_of evs = []
               then (\<exists>rs d. syncs = [Invoke Sync rs, Invoke Sync d] \<and> r = res_of rs)
               else r = Err (Join (errors_of evs) '', '') \<and> (\<exists>d. syncs = [Invoke Sync d]))"
proof (cases "Status c")
  case None
  with assms show ?thesis by (auto simp: down_def)
next
  case (Some st)
  obtain serr c1 t1 where u: "invoke env uploadToS3 (c, log DownStart t) = (serr, (c1, t1))"
    by (metis prod.exhaust)
  from invoke_facts[OF u] have c1: "c1 = c" and h1: "handle t1 = handle t"
    and tr1: "trace t1 = trace t @ [DownStart, Invoke uploadToS3 serr]"
    by (simp_all add: log_def)
  obtain ro c2 t2 where rd: "run_down env Down_steps [] (c1, t1) = (ro, (c2, t2))"
    by (metis prod.exhaust)
  obtain d1 c3 t3 where s1: "invoke env Sync (c2, t2) = (d1, (c3, t3))"
    by (metis prod.exhaust)
  obtain d2 c4 t4 where s2: "invoke env Sync (c3, t3) = (d2, (c4, t4))"
    by (metis prod.exhaust)
  note i1 = invoke_facts[OF s1] and i2 = invoke_facts[OF s2]
  from assms Some u rd s1 obtain errs where ro: "ro = Some errs"
    by (cases ro) (auto simp: down_def)
  from run_down_plan[OF fresh_Down_steps rd[unfolded ro]] obtain evs where
    e: "trace t2 = trace t1 @ evs" "calls_of evs = concat (map (planned c1 (handle t1)) Down_steps)"
       "errs = errors_of evs"
    by auto
  show ?thesis
  proof (cases "errs = []")
    case True
    with assms Some u rd ro s1 s2 have "r = res_of d1" "t' = t4"
      by (auto simp: down_def)
    with True e i1 i2 tr1 c1 h1 show ?thesis
      by (intro exI[of _ serr] exI[of _ evs] exI[of _ "[Invoke Sync d1, Invoke Sync d2]"])
         (simp add: down_plan_def)
  next
    case False
    with assms Some u rd ro s1 s2 have "r = Err (Join errs '', '')" "t' = t3"
      by (auto simp: down_def)
    with False e i1 tr1 c1 h1 show ?thesis
      by (intro exI[of _ serr] exI[of _ evs] exI[of _ "[Invoke Sync d1]"])
         (simp add: down_plan_def)
  qed
qed

lemma Join_sublist: "m \<in> set ms \<Longrightarrow> sublist m (Join ms sep)"
proof (induction ms sep rule: Join.induct)
  case (1 sep)
  then show ?case by simp
next
  case (2 x sep)
  then show ?case by simp
next
  case (3 x y ys sep)
  show ?case
  proof (cases "m = x")
    case True
    then show ?thesis by simp
  next
    case False
    with 3 have "sublist m (Join (y # ys) sep)" by simp
    then obtain ps ss where "Join (y # ys) sep = ps @ m @ ss"
      by (auto simp: sublist_def)
    then have "Join (x # y # ys) sep = (x @ sep @ ps) @ m @ ss" by simp
    then show ?thesis unfolding sublist_def by blast
  qed
qed

lemmas eval_defs = down_def Down_steps_def invoke_def log_def sleep_def quiet_env_def
  failing_env_def failing_with_def base_config_def base_tester_def only_def emitted_def

lemma count_planned:
  "count_list (concat (map (planned c h) ps)) (Delete a) = length (filter (deletes c h a) ps)"
proof (induction ps)
  case Nil
  then show ?case by simp
next
  case (Cons p ps)
  then show ?case by (cases p) auto
qed

lemma count_swept:
  assumes "a \<in> set swept_addons"
  shows "length (filter (deletes c h a) Down_steps) = (if enabled c a \<and> created c a then 1 else 0)"
proof -
  from assms have "a = StresserRemote \<or> a = StresserLocal \<or> a = HollowNodesRemote
      \<or> a = HollowNodesLocal \<or> a = Kubeflow \<or> a = JupyterHub \<or> a = Wordpress
      \<or> a = IRSAFargate \<or> a = IRSA \<or> a = Fargate \<or> a = SecretsLocal \<or> a = SecretsRemote
      \<or> a = ConfigMapsLocal \<or> a = CSRsRemote \<or> a = CronJobs \<or> a = JobsEcho \<or> a = JobsPi
      \<or> a = ALB2048 \<or> a = NLBHelloWorld \<or> a = PrometheusGrafana \<or> a = KubernetesDashboard
      \<or> a = AppMesh \<or> a = CSIEBS \<or> a = Conformance"
    by (simp add: swept_addons_def)
  then show ?thesis
    by (elim disjE) (simp_all add: Down_steps_def)
qed

section \<open>The teardown: which deletions are made\<close>

lemma count_node_groups:
  assumes "a \<in> set node_group_addons"
  shows "length (filter (deletes c h a) Down_steps) = (if enabled c a \<and> h a then 1 else 0)"
proof -
  from assms have "a = ManagedNodeGroups \<or> a = NodeGroups"
    by (simp add: node_group_addons_def)
  then show ?thesis
    by (elim disjE) (simp_all add: Down_steps_def)
qed

lemma calls_of_Invoke: "(k \<in> set (calls_of evs)) = (\<exists>r. Invoke k r \<in> set evs)"
  by (induction evs rule: calls_of.induct) auto

lemma swept_rows:
  assumes "a \<in> set swept_addons" "DeleteAddOn g a w \<in> set Down_steps"
  shows "g = a"
proof -
  from assms(1) have "a = StresserRemote \<or> a = StresserLocal \<or> a = HollowNodesRemote
      \<or> a = HollowNodesLocal \<or> a = Kubeflow \<or> a = JupyterHub \<or> a = Wordpress
      \<or> a = IRSAFargate \<or> a = IRSA \<or> a = Fargate \<or> a = SecretsLocal \<or> a = SecretsRemote
      \<or> a = ConfigMapsLocal \<or> a = CSRsRemote \<or> a = CronJobs \<or> a = JobsEcho \<or> a = JobsPi
      \<or> a = ALB2048 \<or> a = NLBHelloWorld \<or> a = PrometheusGrafana \<or> a = KubernetesDashboard
      \<or> a = AppMesh \<or> a = CSIEBS \<or> a = Conformance"
    by (simp add: swept_addons_def)
  then show ?thesis
    using assms(2) by (elim disjE) (simp_all add: Down_steps_def)
qed

lemma swept_not_node_group:
  "a \<in> set swept_addons \<Longrightarrow> DeleteNodeGroup a \<notin> set Down_steps"
  by (auto simp: swept_addons_def Down_steps_def)

text \<open>C1 (counterexample): a node group that is enabled with a tester has
  \<^verbatim>\<open>Delete\<close> invoked by \<open>down\<close> although its \<^verbatim>\<open>Created\<close> flag is false.\<close>

theorem C1_counterexample:
  "\<not> created ng_config NodeGroups
   \<and> Delete NodeGroups \<in> set (calls_of (trace (snd (snd (down quiet_env (Some ng_config, ng_tester))))))"
  by (simp add: eval_defs ng_config_def ng_tester_def)

text \<open>
  C1 (as the code has it): in every run of \<open>down\<close> that returns, an add-on of the sweep that has a
  block and a tester call of its own has \<^verbatim>\<open>Delete\<close> invoked exactly once when it is
  enabled and its \<^verbatim>\<open>Created\<close> flag is true as \<open>down\<close> begins, and never
  otherwise; each of the two node-group add-ons has \<^verbatim>\<open>Delete\<close> invoked exactly once
  when it is enabled and its tester is not nil, whatever its \<^verbatim>\<open>Created\<close> flag, and
  never otherwise.
\<close>

theorem C1_delete_iff_gate:
  assumes "down env (Some c, t) = (r, (co, t'))" and "r \<noteq> Panic"
  shows "(a \<in> set swept_addons \<longrightarrow>
            count_list (calls_of (emitted t t')) (Delete a)
              = (if enabled c a \<and> created c a then 1 else 0))
       \<and> (a \<in> set node_group_addons \<longrightarrow>
            count_list (calls_of (emitted t t')) (Delete a)
              = (if enabled c a \<and> handle t a then 1 else 0))"
proof -
  from down_returns[OF assms] obtain serr evs syncs where
    tr: "trace t' = trace t @ DownStart # Invoke uploadToS3 serr # evs @ syncs"
    and pl: "calls_of evs = down_plan c (handle t)"
    and sy: "calls_of syncs = [Sync] \<or> calls_of syncs = [Sync, Sync]"
    by (auto split: if_splits)
  from tr have em: "emitted t t' = DownStart # Invoke uploadToS3 serr # evs @ syncs"
    by simp
  have "count_list (calls_of (emitted t t')) (Delete a)
          = length (filter (deletes c (handle t) a) Down_steps)"
    using sy by (auto simp: em calls_of_append pl down_plan_def count_planned)
  then show ?thesis
    by (simp add: count_swept count_node_groups)
qed

text \<open>C1 (witness): only the ALB add-on is enabled and created.\<close>

theorem C1_delete_iff_gate_witness:
  "fst (down quiet_env (Some alb_config, alb_tester)) \<noteq> Panic
   \<and> ALB2048 \<in> set swept_addons
   \<and> count_list (calls_of (emitted alb_tester (snd (snd (down quiet_env (Some alb_config, alb_tester))))))
        (Delete ALB2048) = 1
   \<and> NodeGroups \<in> set node_group_addons
   \<and> count_list (calls_of (emitted alb_tester (snd (snd (down quiet_env (Some alb_config, alb_tester))))))
        (Delete NodeGroups) = 0"
proof -
  have ev: "fst (down quiet_env (Some alb_config, alb_tester)) \<noteq> Panic"
    by (simp add: eval_defs alb_config_def alb_tester_def)
  have en: "enabled alb_config ALB2048 \<and> created alb_config ALB2048
      \<and> \<not> enabled alb_config NodeGroups"
    by (simp add: alb_config_def base_config_def only_def)
  have mem: "ALB2048 \<in> set swept_addons" "NodeGroups \<in> set node_group_addons"
    by (simp_all add: swept_addons_def node_group_addons_def)
  have h: "down quiet_env (Some alb_config, alb_tester)
      = (fst (down quiet_env (Some alb_config, alb_tester)),
         (fst (snd (down quiet_env (Some alb_config, alb_tester))),
          snd (snd (down quiet_env (Some alb_config, alb_tester)))))"
    by simp
  from C1_delete_iff_gate[OF h ev, of ALB2048] C1_delete_iff_gate[OF h ev, of NodeGroups]
       ev en mem
  show ?thesis by simp
qed

section \<open>The teardown: failures are collected\<close>

lemma down_split:
  "down env (Some c, t) = (fst (down env (Some c, t)), (fst (snd (down env (Some c, t))), down_of env c t))"
  by (simp add: down_of_def)

lemmas eval_down = eval_defs down_of_def

lemma failures_other [simp]: "\<not> is_deletion k \<Longrightarrow> failures (Invoke k r # es) = failures es"
  by (cases r) simp_all

text \<open>
  C2 (counterexample): no step of the teardown fails and the configuration cannot be
  persisted: \<open>down\<close> does not return success but the error of its last line,
  \<^verbatim>\<open>return ts.cfg.Sync()\<close>. And where an add-on of the sweep is enabled and marked as
  created while its tester is nil, \<open>down\<close> panics in the block of that add-on: the
  steps after it are not attempted.
\<close>

theorem C2_counterexample:
  "failures (emitted base_tester (down_of sync_env base_config base_tester)) = []
   \<and> fst (down sync_env (Some base_config, base_tester)) = Err ''no disk''
   \<and> fst (down quiet_env (Some echo_created_config, base_tester)) = Panic
   \<and> deleteCluster \<notin> set (calls_of (trace (down_of quiet_env echo_created_config base_tester)))"
  by (simp add: eval_down sync_env_def echo_created_config_def)

text \<open>
  C2 (as the code has it): in every run of \<open>down\<close> that returns, the deletion steps
  attempted are those of \<open>down_plan\<close>, which depends on the configuration and the
  handles at the start only, not on what earlier steps returned; when some of them fail,
  the error returned is the \<^verbatim>\<open>strings.Join\<close> of all their messages in order, so
  each message is a part of it; when none fails, \<open>down\<close> returns what the final
  \<^verbatim>\<open>ts.cfg.Sync()\<close> returns, which is nil when no call of the run failed.
\<close>

theorem C2_down_aggregates_failures:
  assumes "down env (Some c, t) = (r, (co, t'))" and "r \<noteq> Panic"
  shows "filter is_deletion (calls_of (emitted t t')) = down_plan c (handle t)
       \<and> (failures (emitted t t') \<noteq> [] \<longrightarrow> r = Err (Join (failures (emitted t t')) '', ''))
       \<and> (\<forall>m \<in> set (failures (emitted t t')). \<exists>msg. r = Err msg \<and> sublist m msg)
       \<and> (failures (emitted t t') = [] \<longrightarrow>
            (\<exists>rs d. suffix [Invoke Sync rs, Invoke Sync d] (emitted t t') \<and> r = res_of rs))
       \<and> (errors_of (emitted t t') = [] \<longrightarrow> r = Ok)"
proof -
  from down_returns[OF assms] obtain serr evs syncs where
    tr: "trace t' = trace t @ DownStart # Invoke uploadToS3 serr # evs @ syncs"
    and pl: "calls_of evs = down_plan c (handle t)"
    and rs: "if errors_of evs = []
               then (\<exists>rs d. syncs = [Invoke Sync rs, Invoke Sync d] \<and> r = res_of rs)
               else r = Err (Join (errors_of evs) '', '') \<and> (\<exists>d. syncs = [Invoke Sync d])"
    by blast
  from tr have em: "emitted t t' = DownStart # Invoke uploadToS3 serr # evs @ syncs"
    by simp
  have del: "list_all is_deletion (calls_of evs)"
    by (simp add: pl down_plan_deletions)
  have sy: "calls_of syncs = [Sync] \<or> calls_of syncs = [Sync, Sync]"
    using rs by (auto split: if_splits)
  have fs: "failures syncs = []"
    using rs by (cases "errors_of evs = []") auto
  have fu: "failures [Invoke uploadToS3 serr] = []"
    by simp
  have fe: "failures (emitted t t') = errors_of evs"
    using failures_append[of "[Invoke uploadToS3 serr]" "evs @ syncs"] fu fs
    by (simp add: em failures_append failures_errors[OF del])
  have A: "filter is_deletion (calls_of (emitted t t')) = down_plan c (handle t)"
    using sy del by (auto simp: em calls_of_append pl[symmetric] list_all_iff filter_id_conv)
  have B: "failures (emitted t t') \<noteq> [] \<longrightarrow> r = Err (Join (failures (emitted t t')) '', '')"
    using rs by (simp add: fe)
  have C: "\<forall>m \<in> set (failures (emitted t t')). \<exists>msg. r = Err msg \<and> sublist m msg"
  proof
    fix m assume m: "m \<in> set (failures (emitted t t'))"
    then have "failures (emitted t t') \<noteq> []" by auto
    with B have "r = Err (Join (failures (emitted t t')) '', '')" by simp
    with Join_sublist[OF m] show "\<exists>msg. r = Err msg \<and> sublist m msg" by blast
  qed
  have D: "failures (emitted t t') = [] \<longrightarrow>
            (\<exists>rs d. suffix [Invoke Sync rs, Invoke Sync d] (emitted t t') \<and> r = res_of rs)"
  proof
    assume "failures (emitted t t') = []"
    with fe rs obtain rs' d where s: "syncs = [Invoke Sync rs', Invoke Sync d]" "r = res_of rs'"
      by auto
    have "emitted t t' = (DownStart # Invoke uploadToS3 serr # evs) @ [Invoke Sync rs', Invoke Sync d]"
      by (simp add: em s(1))
    then have "suffix [Invoke Sync rs', Invoke Sync d] (emitted t t')"
      unfolding suffix_def by blast
    with s(2) show "\<exists>rs d. suffix [Invoke Sync rs, Invoke Sync d] (emitted t t') \<and> r = res_of rs"
      by blast
  qed
  have E: "errors_of (emitted t t') = [] \<longrightarrow> r = Ok"
  proof
    assume e: "errors_of (emitted t t') = []"
    then have "errors_of (evs @ syncs) = []"
      by (cases serr) (simp_all add: em)
    then have e1: "errors_of evs = []" and e2: "errors_of syncs = []"
      by (simp_all add: errors_of_append)
    from rs e1 obtain rs' d where s: "syncs = [Invoke Sync rs', Invoke Sync d]" "r = res_of rs'"
      by auto
    from e2 s(1) have "rs' = None" by (cases rs') simp_all
    with s(2) show "r = Ok" by simp
  qed
  from A B C D E show ?thesis by blast
qed

text \<open>C2 (witness): the key pair, the ALB add-on and the bucket fail to delete; all three
  messages are in the error, in order, and every planned step was attempted.\<close>

theorem C2_down_aggregates_failures_witness:
  "fst (down three_failures (Some alb_config, alb_tester)) = Err ''no key, no alb, no bucket''
   \<and> filter is_deletion (calls_of (emitted alb_tester (down_of three_failures alb_config alb_tester)))
     = [deleteKeyPair, Delete ALB2048, deleteCluster, deleteEncryption, deleteClusterRole,
        deleteVPC, deleteS3]
   \<and> failures (emitted alb_tester (down_of three_failures alb_config alb_tester))
     = [''no key'', ''no alb'', ''no bucket'']
   \<and> sublist ''no alb'' ''no key, no alb, no bucket''"
proof -
  have ev: "fst (down three_failures (Some alb_config, alb_tester)) \<noteq> Panic"
    by (simp add: eval_down three_failures_def alb_config_def alb_tester_def)
  have f: "failures (emitted alb_tester (down_of three_failures alb_config alb_tester))
     = [''no key'', ''no alb'', ''no bucket'']"
    by (simp add: eval_down three_failures_def alb_config_def alb_tester_def)
  have p: "down_plan alb_config (handle alb_tester)
     = [deleteKeyPair, Delete ALB2048, deleteCluster, deleteEncryption, deleteClusterRole,
        deleteVPC, deleteS3]"
    by (simp add: down_plan_def Down_steps_def alb_config_def alb_tester_def base_config_def
          base_tester_def only_def)
  from C2_down_aggregates_failures[OF down_split ev] f p show ?thesis
    by auto
qed

section \<open>The teardown: a panic in the sweep\<close>

lemma run_down_append:
  "run_down env (ps @ qs) errs s =
     (case run_down env ps errs s of
        (None, s1) \<Rightarrow> (None, s1)
      | (Some errs1, s1) \<Rightarrow> run_down env qs errs1 s1)"
proof (induction ps arbitrary: errs s)
  case Nil
  then show ?case by simp
next
  case (Cons p ps)
  obtain r s1 where st: "down_step env p s = (r, s1)" by (metis prod.exhaust)
  with Cons show ?case by (cases r) simp_all
qed

lemma run_down_trace:
  assumes "run_down env ps errs (c, t) = (ro, (c', t'))"
  shows "\<exists>evs. trace t' = trace t @ evs"
  using run_down_frame[OF assms] by blast

text \<open>
  C10 (the code at the failing input): only the local cluster loader is enabled and it was
  created; its block in \<open>down\<close> calls \<^verbatim>\<open>ts.clusterLoaderRemoteTester.Delete()\<close>, and
  that tester is nil. \<open>down\<close> panics after the key pair, and the cluster, the encryption
  key, the role, the network and the bucket are never attempted. With the same
  configuration and the \<^verbatim>\<open>Created\<close> flag false, all six are.
\<close>

theorem C10_down_panics_before_cluster_deletion:
  "fst (down quiet_env (Some cll_config, cll_tester)) = Panic
   \<and> calls_of (trace (down_of quiet_env cll_config cll_tester)) = [uploadToS3, deleteKeyPair, Sync]
   \<and> fst (down quiet_env (Some cll_off_config, cll_tester)) = Ok
   \<and> calls_of (trace (down_of quiet_env cll_off_config cll_tester))
       = [uploadToS3, deleteKeyPair, deleteCluster, deleteEncryption, deleteClusterRole,
          deleteVPC, deleteS3, Sync, Sync]"
  by (simp add: eval_down cll_config_def cll_off_config_def cll_tester_def)

section \<open>The teardown: the waits before the network is deleted\<close>

lemma run_down_keeps:
  "run_down env ps errs (c, t) = (Some errs', (c', t')) \<Longrightarrow>
   \<forall>p\<in>set ps. target_of p \<noteq> Some a \<Longrightarrow> created c' a = created c a"
proof (induction ps arbitrary: errs c t)
  case Nil
  then show ?case by simp
next
  case (Cons p ps)
  obtain r c1 t1 where st: "down_step env p (c, t) = (r, (c1, t1))"
    by (metis prod.exhaust)
  from Cons.prems(1) st have np: "r \<noteq> Panic" by auto
  from down_step_facts(4)[OF st np] Cons.prems(2) have k1: "created c1 a = created c a"
    by simp
  define errs1 where "errs1 = (case r of Err e \<Rightarrow> errs @ [e] | _ \<Rightarrow> errs)"
  from Cons.prems(1) st np have run: "run_down env ps errs1 (c1, t1) = (Some errs', (c', t'))"
    by (cases r) (auto simp: errs1_def)
  from Cons.IH[OF run] Cons.prems(2) k1 show ?case by simp
qed

lemma same_but_created_VPCCreate: "same_but_created c c' \<Longrightarrow> VPCCreate c' = VPCCreate c"
  unfolding same_but_created_def by (drule arg_cong[where f = VPCCreate]) simp

text \<open>
  A run over a list of phases in which the block of a load-balancer add-on comes first,
  then the wait for the load balancers, then the wait for the network and its deletion.
\<close>

lemma settle_general:
  assumes run: "run_down env ps errs (c, t) = (Some errs', (c', t'))"
    and ps: "ps = ps1 @ DeleteAddOn a a (Some 60) # ps2 @ LBWait # ps3 @ VPCWait # Infra deleteVPC # ps4"
    and nt: "\<forall>p \<in> set (ps1 @ ps2). target_of p \<noteq> Some a"
    and lb: "a \<in> set lb_addons" and en: "enabled c a" "created c a"
    and ex: "trace t' = trace t @ evs"
  shows "\<exists>pre r0 mid rv post.
           evs = pre @ Invoke (Delete a) r0 # mid @ Invoke deleteVPC rv # post
           \<and> (r0 = None \<longrightarrow> (\<exists>m. mid = Sleep 60 # m))
           \<and> (r0 \<noteq> None \<and> (enabled c NodeGroups \<or> enabled c ManagedNodeGroups)
                \<longrightarrow> Sleep 120 \<in> set mid)
           \<and> (VPCCreate c \<longrightarrow> (\<exists>m. mid = m @ [Sleep 30]))"
proof -
  note run' = run[unfolded ps]
  obtain o1 c1 t1 where r1: "run_down env ps1 errs (c, t) = (o1, (c1, t1))"
    by (metis prod.exhaust)
  with run' obtain e1 where o1: "o1 = Some e1"
    by (cases o1) (auto simp: run_down_append)
  obtain rr c2 t2 where st: "down_step env (DeleteAddOn a a (Some 60)) (c1, t1) = (rr, (c2, t2))"
    by (metis prod.exhaust)
  from run' r1 o1 st have np: "rr \<noteq> Panic"
    by (auto simp: run_down_append)
  define e2 where "e2 = (case rr of Err e \<Rightarrow> e1 @ [e] | _ \<Rightarrow> e1)"
  from run' r1 o1 st np have r2: "run_down env (ps2 @ LBWait # ps3 @ VPCWait # Infra deleteVPC # ps4) e2 (c2, t2)
      = (Some errs', (c', t'))"
    by (cases rr) (auto simp: run_down_append e2_def)
  obtain o3 c3 t3 where r3: "run_down env ps2 e2 (c2, t2) = (o3, (c3, t3))"
    by (metis prod.exhaust)
  with r2 obtain e3 where o3: "o3 = Some e3"
    by (cases o3) (auto simp: run_down_append)
  obtain c4 t4 where lw: "down_step env LBWait (c3, t3) = (Ok, (c4, t4))"
    by (cases "down_step env LBWait (c3, t3)") (auto split: if_splits)
  from r2 r3 o3 lw have r4: "run_down env (ps3 @ VPCWait # Infra deleteVPC # ps4) e3 (c4, t4)
      = (Some errs', (c', t'))"
    by (simp add: run_down_append)
  obtain o5 c5 t5 where r5: "run_down env ps3 e3 (c4, t4) = (o5, (c5, t5))"
    by (metis prod.exhaust)
  with r4 obtain e5 where o5: "o5 = Some e5"
    by (cases o5) (auto simp: run_down_append)
  obtain c6 t6 where vw: "down_step env VPCWait (c5, t5) = (Ok, (c6, t6))"
    by (cases "down_step env VPCWait (c5, t5)") (auto split: if_splits)
  obtain rv c7 t7 where iv: "invoke env deleteVPC (c6, t6) = (rv, (c7, t7))"
    by (metis prod.exhaust)
  define e7 where "e7 = (case rv of Some e \<Rightarrow> e5 @ [e] | None \<Rightarrow> e5)"
  from r4 r5 o5 vw iv have r8: "run_down env ps4 e7 (c7, t7) = (Some errs', (c', t'))"
    by (cases rv) (auto simp: run_down_append e7_def)
  \<comment> \<open>the configuration along the run\<close>
  note f1 = run_down_frame[OF r1] and f3 = run_down_frame[OF r3] and f5 = run_down_frame[OF r5]
  from nt have n1: "\<forall>p\<in>set ps1. target_of p \<noteq> Some a" and n2: "\<forall>p\<in>set ps2. target_of p \<noteq> Some a"
    by auto
  have en1: "enabled c1 = enabled c" using f1 same_but_created_enabled by blast
  have cr1: "created c1 a" using run_down_keeps[OF r1[unfolded o1] n1] en(2) by simp
  have sc2: "same_but_created c1 c2" using down_step_frame(1)[OF st] .
  have en2: "enabled c2 = enabled c1" using sc2 by (rule same_but_created_enabled)
  have en3: "enabled c3 = enabled c2" using f3 same_but_created_enabled by blast
  have sc4: "same_but_created c3 c4" using down_step_frame(1)[OF lw] .
  have sc6: "same_but_created c5 c6" using down_step_frame(1)[OF vw] .
  have sc05: "same_but_created c c5"
    using f1 sc2 f3 sc4 f5 by (blast intro: same_but_created_trans)
  have vc5: "VPCCreate c5 = VPCCreate c" using sc05 by (rule same_but_created_VPCCreate)
  \<comment> \<open>the block of the add-on\<close>
  obtain r0 c0 t0 where i: "invoke env (Delete a) (c1, t1) = (r0, (c0, t0))"
    by (metis prod.exhaust)
  from st np en(1) en1 cr1 have h: "handle t1 a" by (auto split: if_splits)
  have t2: "trace t2 = trace t1 @ Invoke (Delete a) r0 # (if r0 = None then [Sleep 60] else [])"
    and cr2: "r0 \<noteq> None \<longrightarrow> created c2 a"
    using st i invoke_facts[OF i] en(1) en1 cr1 h
    by (cases r0; auto simp: sleep_def log_def)+
  have cr3: "r0 \<noteq> None \<longrightarrow> created c3 a"
    using run_down_keeps[OF r3[unfolded o3] n2] cr2 by simp
  \<comment> \<open>the two waits\<close>
  have t4: "r0 \<noteq> None \<and> (enabled c NodeGroups \<or> enabled c ManagedNodeGroups)
      \<longrightarrow> trace t4 = trace t3 @ [Sleep 120]"
    using lw cr3 en(1) en1 en2 en3 lb
    by (auto simp: lb_addons_def sleep_def log_def split: if_splits)
  have t4': "\<exists>w4. trace t4 = trace t3 @ w4" using down_step_frame(3)[OF lw] by blast
  have t6: "trace t6 = trace t5 @ (if VPCCreate c then [Sleep 30] else [])"
    using vw vc5 by (auto simp: sleep_def log_def split: if_splits)
  from f1 obtain v1 where v1: "trace t1 = trace t @ v1" by blast
  from f3 obtain v3 where v3: "trace t3 = trace t2 @ v3" by blast
  from t4' obtain w4 where w4: "trace t4 = trace t3 @ w4" by blast
  from f5 obtain v5 where v5: "trace t5 = trace t4 @ v5" by blast
  from invoke_facts(1)[OF iv] have t7: "trace t7 = trace t6 @ [Invoke deleteVPC rv]" .
  from run_down_trace[OF r8] obtain v8 where v8: "trace t' = trace t7 @ v8" by blast
  define sl where "sl = (if r0 = None then [Sleep 60] else [])"
  define vs where "vs = (if VPCCreate c then [Sleep 30] else [])"
  define mid where "mid = sl @ v3 @ w4 @ v5 @ vs"
  have evs: "evs = v1 @ Invoke (Delete a) r0 # mid @ Invoke deleteVPC rv # v8"
    using ex v1 t2 v3 w4 v5 t6 t7 v8 by (simp add: mid_def sl_def vs_def)
  have A: "r0 = None \<longrightarrow> (\<exists>m. mid = Sleep 60 # m)"
    by (simp add: mid_def sl_def)
  have B: "r0 \<noteq> None \<and> (enabled c NodeGroups \<or> enabled c ManagedNodeGroups)
                \<longrightarrow> Sleep 120 \<in> set mid"
    using t4 w4 by (auto simp: mid_def)
  have C: "VPCCreate c \<longrightarrow> (\<exists>m. mid = m @ [Sleep 30])"
  proof
    assume "VPCCreate c"
    then have "mid = (sl @ v3 @ w4 @ v5) @ [Sleep 30]" by (simp add: mid_def vs_def)
    then show "\<exists>m. mid = m @ [Sleep 30]" by blast
  qed
  from evs A B C show ?thesis by blast
qed

lemma Down_steps_ALB:
  "Down_steps = take 20 Down_steps @ DeleteAddOn ALB2048 ALB2048 (Some 60)
      # take 6 (drop 21 Down_steps) @ LBWait # take 5 (drop 28 Down_steps) @ VPCWait
      # Infra deleteVPC # [Infra deleteS3]"
  by (simp add: Down_steps_def)

lemma Down_steps_NLB:
  "Down_steps = take 21 Down_steps @ DeleteAddOn NLBHelloWorld NLBHelloWorld (Some 60)
      # take 5 (drop 22 Down_steps) @ LBWait # take 5 (drop 28 Down_steps) @ VPCWait
      # Infra deleteVPC # [Infra deleteS3]"
  by (simp add: Down_steps_def)

lemma settle_Down_steps:
  assumes "run_down env Down_steps errs (c, t) = (Some errs', (c', t'))"
    and "a \<in> set lb_addons" and "enabled c a" "created c a"
    and "trace t' = trace t @ evs"
  shows "\<exists>pre r0 mid rv post.
           evs = pre @ Invoke (Delete a) r0 # mid @ Invoke deleteVPC rv # post
           \<and> (r0 = None \<longrightarrow> (\<exists>m. mid = Sleep 60 # m))
           \<and> (r0 \<noteq> None \<and> (enabled c NodeGroups \<or> enabled c ManagedNodeGroups)
                \<longrightarrow> Sleep 120 \<in> set mid)
           \<and> (VPCCreate c \<longrightarrow> (\<exists>m. mid = m @ [Sleep 30]))"
proof -
  from assms(2) consider "a = ALB2048" | "a = NLBHelloWorld"
    by (auto simp: lb_addons_def)
  then show ?thesis
  proof cases
    case 1
    have nt: "\<forall>p \<in> set (take 20 Down_steps @ take 6 (drop 21 Down_steps)). target_of p \<noteq> Some ALB2048"
      by (simp add: Down_steps_def)
    from settle_general[OF assms(1) Down_steps_ALB nt assms(2-5)[unfolded 1]]
    show ?thesis unfolding 1 .
  next
    case 2
    have nt: "\<forall>p \<in> set (take 21 Down_steps @ take 5 (drop 22 Down_steps)). target_of p \<noteq> Some NLBHelloWorld"
      by (simp add: Down_steps_def)
    from settle_general[OF assms(1) Down_steps_NLB nt assms(2-5)[unfolded 2]]
    show ?thesis unfolding 2 .
  qed
qed

text \<open>C8 (counterexample): the ALB add-on is enabled and created, its \<^verbatim>\<open>Delete\<close>
  fails, no node group is enabled and the network was not created by the tester: \<open>down\<close>
  goes from the failed deletion to the deletion of the network without any sleep.\<close>

theorem C8_counterexample:
  "created alb_config ALB2048
   \<and> trace (down_of (failing_env [Delete ALB2048]) alb_config alb_tester)
     = [DownStart, Invoke uploadToS3 None, Invoke deleteKeyPair None,
        Invoke (Delete ALB2048) (Some ''failed''), Invoke deleteCluster None,
        Invoke deleteEncryption None, Invoke deleteClusterRole None,
        Invoke deleteVPC None, Invoke deleteS3 None, Invoke Sync None]"
  by (simp add: eval_down alb_config_def alb_tester_def)

text \<open>
  C8 (as the code has it): in every run of \<open>down\<close> that returns, with the ALB or the
  NLB add-on enabled and its \<^verbatim>\<open>Created\<close> flag true, \<^verbatim>\<open>Delete\<close> of that add-on
  is called once and the deletion of the network is attempted later. Between the two,
  a successful \<^verbatim>\<open>Delete\<close> is followed at once by a sleep of one minute; after a
  failed one \<open>down\<close> sleeps two minutes when a node-group add-on is enabled; and when
  the network was created by the tester, \<open>down\<close> sleeps thirty seconds just before it
  deletes the network.
\<close>

theorem C8_settle_before_network_deletion:
  assumes "down env (Some c, t) = (r, (co, t'))" and "r \<noteq> Panic"
    and "a \<in> set lb_addons" and "enabled c a" and "created c a"
  shows "count_list (calls_of (emitted t t')) (Delete a) = 1
       \<and> (\<exists>pre r0 mid rv post.
             emitted t t' = pre @ Invoke (Delete a) r0 # mid @ Invoke deleteVPC rv # post
             \<and> (r0 = None \<longrightarrow> (\<exists>m. mid = Sleep 60 # m))
             \<and> (r0 \<noteq> None \<and> (enabled c NodeGroups \<or> enabled c ManagedNodeGroups)
                  \<longrightarrow> Sleep 120 \<in> set mid)
             \<and> (VPCCreate c \<longrightarrow> (\<exists>m. mid = m @ [Sleep 30])))"
proof -
  have sw: "a \<in> set swept_addons"
    using assms(3) by (auto simp: lb_addons_def swept_addons_def)
  from down_returns[OF assms(1,2)] obtain serr evs0 syncs0 where
    tr0: "trace t' = trace t @ DownStart # Invoke uploadToS3 serr # evs0 @ syncs0"
    and pl: "calls_of evs0 = down_plan c (handle t)"
    and sy: "calls_of syncs0 = [Sync] \<or> calls_of syncs0 = [Sync, Sync]"
    by (auto split: if_splits)
  from tr0 have em0: "emitted t t' = DownStart # Invoke uploadToS3 serr # evs0 @ syncs0"
    by simp
  have "count_list (calls_of (emitted t t')) (Delete a)
          = length (filter (deletes c (handle t) a) Down_steps)"
    using sy by (auto simp: em0 calls_of_append pl down_plan_def count_planned)
  then have A: "count_list (calls_of (emitted t t')) (Delete a) = 1"
    using assms(4,5) by (simp add: count_swept[OF sw])
  have B: "\<exists>pre r0 mid rv post.
             emitted t t' = pre @ Invoke (Delete a) r0 # mid @ Invoke deleteVPC rv # post
             \<and> (r0 = None \<longrightarrow> (\<exists>m. mid = Sleep 60 # m))
             \<and> (r0 \<noteq> None \<and> (enabled c NodeGroups \<or> enabled c ManagedNodeGroups)
                  \<longrightarrow> Sleep 120 \<in> set mid)
             \<and> (VPCCreate c \<longrightarrow> (\<exists>m. mid = m @ [Sleep 30]))"
  proof (cases "Status c")
    case None
    with assms(1,2) show ?thesis by (auto simp: down_def)
  next
    case (Some st)
    obtain serr c1 t1 where u: "invoke env uploadToS3 (c, log DownStart t) = (serr, (c1, t1))"
      by (metis prod.exhaust)
    from invoke_facts[OF u] have
      tr1: "trace t1 = trace t @ [DownStart, Invoke uploadToS3 serr]" and c1: "c1 = c"
      by (simp_all add: log_def)
    obtain ro c2 t2 where rd: "run_down env Down_steps [] (c1, t1) = (ro, (c2, t2))"
      by (metis prod.exhaust)
    obtain d1 c3 t3 where s1: "invoke env Sync (c2, t2) = (d1, (c3, t3))"
      by (metis prod.exhaust)
    obtain d2 c4 t4 where s2: "invoke env Sync (c3, t3) = (d2, (c4, t4))"
      by (metis prod.exhaust)
    note i1 = invoke_facts(1)[OF s1] and i2 = invoke_facts(1)[OF s2]
    from assms(1,2) Some u rd s1 obtain errs where ro: "ro = Some errs"
      by (cases ro) (auto simp: down_def)
    from run_down_trace[OF rd] obtain evs where e: "trace t2 = trace t1 @ evs" by blast
    have "\<exists>syncs. trace t' = trace t2 @ syncs"
      using assms(1) Some u rd ro s1 s2 i1 i2
      by (cases "errs = []") (auto simp: down_def)
    then obtain syncs where sy: "trace t' = trace t2 @ syncs" by blast
    from tr1 e sy have em: "emitted t t' = [DownStart, Invoke uploadToS3 serr] @ evs @ syncs"
      by simp
    from settle_Down_steps[OF rd[unfolded ro c1] assms(3,4,5) e] obtain pre r0 mid rv post where
      sh: "evs = pre @ Invoke (Delete a) r0 # mid @ Invoke deleteVPC rv # post"
      and g: "r0 = None \<longrightarrow> (\<exists>m. mid = Sleep 60 # m)"
         "r0 \<noteq> None \<and> (enabled c NodeGroups \<or> enabled c ManagedNodeGroups)
                  \<longrightarrow> Sleep 120 \<in> set mid"
         "VPCCreate c \<longrightarrow> (\<exists>m. mid = m @ [Sleep 30])"
      by blast
    from em sh have "emitted t t' = ([DownStart, Invoke uploadToS3 serr] @ pre)
        @ Invoke (Delete a) r0 # mid @ Invoke deleteVPC rv # (post @ syncs)"
      by simp
    with g show ?thesis by blast
  qed
  from A B show ?thesis by blast
qed

text \<open>C8 (witness): the ALB add-on cannot be deleted, a node-group add-on is enabled and
  the network was created by the tester: \<open>down\<close> sleeps two minutes after the sweep and
  thirty seconds before it deletes the network. And where the ALB add-on is deleted with
  success, \<open>down\<close> sleeps one minute at once.\<close>

theorem C8_settle_before_network_deletion_witness:
  "fst (down (failing_env [Delete ALB2048]) (Some lb_config, alb_tester)) \<noteq> Panic
   \<and> ALB2048 \<in> set lb_addons \<and> enabled lb_config ALB2048 \<and> created lb_config ALB2048
   \<and> emitted alb_tester (down_of (failing_env [Delete ALB2048]) lb_config alb_tester)
       = [DownStart, Invoke uploadToS3 None, Invoke deleteKeyPair None,
          Invoke (Delete ALB2048) (Some ''failed''), Sleep 120, Invoke deleteCluster None,
          Invoke deleteEncryption None, Invoke deleteClusterRole None, Sleep 30,
          Invoke deleteVPC None, Invoke deleteS3 None, Invoke Sync None]
   \<and> count_list (calls_of (emitted alb_tester
          (down_of (failing_env [Delete ALB2048]) lb_config alb_tester))) (Delete ALB2048) = 1
   \<and> (\<exists>pre r0 mid rv post.
         emitted alb_tester (down_of (failing_env [Delete ALB2048]) lb_config alb_tester)
           = pre @ Invoke (Delete ALB2048) r0 # mid @ Invoke deleteVPC rv # post
         \<and> (r0 \<noteq> None \<longrightarrow> Sleep 120 \<in> set mid) \<and> (\<exists>m. mid = m @ [Sleep 30]))
   \<and> fst (down quiet_env (Some alb_config, alb_tester)) \<noteq> Panic
   \<and> enabled alb_config ALB2048 \<and> created alb_config ALB2048
   \<and> emitted alb_tester (down_of quiet_env alb_config alb_tester)
       = [DownStart, Invoke uploadToS3 None, Invoke deleteKeyPair None,
          Invoke (Delete ALB2048) None, Sleep 60, Invoke deleteCluster None,
          Invoke deleteEncryption None, Invoke deleteClusterRole None,
          Invoke deleteVPC None, Invoke deleteS3 None, Invoke Sync None, Invoke Sync None]
   \<and> (\<exists>pre r0 mid rv post.
         emitted alb_tester (down_of quiet_env alb_config alb_tester)
           = pre @ Invoke (Delete ALB2048) r0 # mid @ Invoke deleteVPC rv # post
         \<and> (r0 = None \<longrightarrow> (\<exists>m. mid = Sleep 60 # m)))"
proof -
  let ?env = "failing_env [Delete ALB2048]"
  have ev: "fst (down ?env (Some lb_config, alb_tester)) \<noteq> Panic"
    by (simp add: eval_down lb_config_def alb_tester_def)
  have m: "ALB2048 \<in> set lb_addons" by (simp add: lb_addons_def)
  have en: "enabled lb_config ALB2048" "created lb_config ALB2048" "enabled lb_config NodeGroups"
    "VPCCreate lb_config"
    by (simp_all add: lb_config_def base_config_def only_def)
  have tr: "emitted alb_tester (down_of ?env lb_config alb_tester)
       = [DownStart, Invoke uploadToS3 None, Invoke deleteKeyPair None,
          Invoke (Delete ALB2048) (Some ''failed''), Sleep 120, Invoke deleteCluster None,
          Invoke deleteEncryption None, Invoke deleteClusterRole None, Sleep 30,
          Invoke deleteVPC None, Invoke deleteS3 None, Invoke Sync None]"
    by (simp add: eval_down lb_config_def alb_tester_def)
  from C8_settle_before_network_deletion[OF down_split ev m en(1,2)] en(3,4)
  have one: "count_list (calls_of (emitted alb_tester (down_of ?env lb_config alb_tester))) (Delete ALB2048) = 1
     \<and> (\<exists>pre r0 mid rv post.
         emitted alb_tester (down_of ?env lb_config alb_tester)
           = pre @ Invoke (Delete ALB2048) r0 # mid @ Invoke deleteVPC rv # post
         \<and> (r0 \<noteq> None \<longrightarrow> Sleep 120 \<in> set mid) \<and> (\<exists>m. mid = m @ [Sleep 30]))"
    by (simp only: simp_thms) blast
  have ev2: "fst (down quiet_env (Some alb_config, alb_tester)) \<noteq> Panic"
    by (simp add: eval_down alb_config_def alb_tester_def)
  have en2: "enabled alb_config ALB2048" "created alb_config ALB2048"
    by (simp_all add: alb_config_def base_config_def only_def)
  have tr2: "emitted alb_tester (down_of quiet_env alb_config alb_tester)
       = [DownStart, Invoke uploadToS3 None, Invoke deleteKeyPair None,
          Invoke (Delete ALB2048) None, Sleep 60, Invoke deleteCluster None,
          Invoke deleteEncryption None, Invoke deleteClusterRole None,
          Invoke deleteVPC None, Invoke deleteS3 None, Invoke Sync None, Invoke Sync None]"
    by (simp add: eval_down alb_config_def alb_tester_def)
  from C8_settle_before_network_deletion[OF down_split ev2 m en2]
  have two: "\<exists>pre r0 mid rv post.
         emitted alb_tester (down_of quiet_env alb_config alb_tester)
           = pre @ Invoke (Delete ALB2048) r0 # mid @ Invoke deleteVPC rv # post
         \<and> (r0 = None \<longrightarrow> (\<exists>m. mid = Sleep 60 # m))"
    by blast
  from ev m en(1,2) tr one ev2 en2 tr2 two show ?thesis by (intro conjI) simp_all
qed

section \<open>The teardown: the infrastructure deletions\<close>

lemma infra_planned:
  "filter is_infra (planned c h p) = (case p of Infra k \<Rightarrow> filter is_infra [k] | _ \<Rightarrow> [])"
  by (cases p) simp_all

lemma down_plan_infra:
  "filter is_infra (down_plan c h)
     = [deleteKeyPair, deleteCluster, deleteEncryption, deleteClusterRole, deleteVPC, deleteS3]"
  by (simp add: down_plan_def filter_concat comp_def infra_planned Down_steps_def)

text \<open>
  What holds of the infrastructure deletions where \<open>down\<close> does not panic: all six are
  attempted, in this order, whatever the flags and whatever failed before.
\<close>

lemma down_attempts_infrastructure:
  assumes "down env (Some c, t) = (r, (co, t'))" and "r \<noteq> Panic"
  shows "filter is_infra (calls_of (emitted t t'))
     = [deleteKeyPair, deleteCluster, deleteEncryption, deleteClusterRole, deleteVPC, deleteS3]"
proof -
  from down_returns[OF assms] obtain serr evs syncs where
    tr: "trace t' = trace t @ DownStart # Invoke uploadToS3 serr # evs @ syncs"
    and pl: "calls_of evs = down_plan c (handle t)"
    and sy: "calls_of syncs = [Sync] \<or> calls_of syncs = [Sync, Sync]"
    by (auto split: if_splits)
  from tr have "emitted t t' = DownStart # Invoke uploadToS3 serr # evs @ syncs"
    by (rule emitted_append)
  with sy pl show ?thesis
    by (auto simp: calls_of_append down_plan_infra)
qed

section \<open>The teardown: a second run\<close>

text \<open>C5 (counterexample): a node group that is enabled with a tester is deleted by the
  first \<open>down\<close> and again by the second, which also repeats the six infrastructure
  deletions.\<close>

theorem C5_counterexample:
  "fst (down quiet_env (Some ng_config, ng_tester)) = Ok
   \<and> calls_of (emitted (down_of quiet_env ng_config ng_tester)
                 (snd (snd (second_down quiet_env ng_config ng_tester))))
     = [uploadToS3, deleteKeyPair, Delete NodeGroups, deleteCluster, deleteEncryption,
        deleteClusterRole, deleteVPC, deleteS3, Sync, Sync]"
  by (simp add: eval_down second_down_def ng_config_def ng_tester_def)

text \<open>
  C5 (as the code has it): after a \<open>down\<close>, every add-on whose \<^verbatim>\<open>Delete\<close> succeeded
  in it has its \<^verbatim>\<open>Created\<close> flag false (with the flag's behaviour that the
  specification gives the add-on testers), and a second \<open>down\<close> with no \<^verbatim>\<open>Up\<close> in
  between calls \<^verbatim>\<open>Delete\<close> for no add-on of the sweep whose flag is false when it
  begins. A second \<open>down\<close> that returns does make destructive calls: it calls
  \<^verbatim>\<open>Delete\<close> once for each add-on of the sweep that is enabled and whose flag is
  still true, once for each enabled node-group add-on whose tester is not nil, whatever
  its flag, and it attempts the six infrastructure deletions again.
\<close>

theorem C5_second_down_skips_deleted:
  assumes "down env1 (Some c, t) = (r1, (Some c1, t1))"
    and "down env2 (Some c1, t1) = (r2, (co2, t2))"
  shows "(Invoke (Delete a) None \<in> set (emitted t t1) \<longrightarrow> \<not> created c1 a)
       \<and> (a \<in> set swept_addons \<longrightarrow> \<not> created c1 a \<longrightarrow> Delete a \<notin> set (calls_of (emitted t1 t2)))
       \<and> (r2 \<noteq> Panic \<longrightarrow>
            (a \<in> set swept_addons \<longrightarrow>
               count_list (calls_of (emitted t1 t2)) (Delete a)
                 = (if enabled c a \<and> created c1 a then 1 else 0))
            \<and> (a \<in> set node_group_addons \<longrightarrow>
               count_list (calls_of (emitted t1 t2)) (Delete a)
                 = (if enabled c a \<and> handle t a then 1 else 0))
            \<and> filter is_infra (calls_of (emitted t1 t2))
                 = [deleteKeyPair, deleteCluster, deleteEncryption, deleteClusterRole,
                    deleteVPC, deleteS3])"
proof -
  from down_frame[OF assms(1)] obtain evs1 where
    f1: "trace t1 = trace t @ DownStart # evs1"
        "\<forall>a. Invoke (Delete a) None \<in> set evs1 \<longrightarrow> \<not> created c1 a"
    and sc: "same_but_created c c1" and h1: "handle t1 = handle t"
    by auto
  have en1: "enabled c1 = enabled c" using sc by (rule same_but_created_enabled)
  from f1(1) have em1: "emitted t t1 = DownStart # evs1" by simp
  from down_frame[OF assms(2)] obtain evs2 where
    f2: "trace t2 = trace t1 @ DownStart # evs2"
        "\<forall>a r. Invoke (Delete a) r \<in> set evs2 \<longrightarrow>
                 (\<exists>g w. DeleteAddOn g a w \<in> set Down_steps \<and> enabled c1 g \<and> created c1 g)
                 \<or> DeleteNodeGroup a \<in> set Down_steps"
    by auto
  from f2(1) have em2: "emitted t1 t2 = DownStart # evs2" by simp
  have A: "Invoke (Delete a) None \<in> set (emitted t t1) \<longrightarrow> \<not> created c1 a"
    using f1(2) by (simp add: em1)
  have B: "a \<in> set swept_addons \<longrightarrow> \<not> created c1 a \<longrightarrow> Delete a \<notin> set (calls_of (emitted t1 t2))"
  proof (intro impI notI)
    assume sw: "a \<in> set swept_addons" and nc: "\<not> created c1 a"
      and m: "Delete a \<in> set (calls_of (emitted t1 t2))"
    from m obtain r where "Invoke (Delete a) r \<in> set evs2"
      by (auto simp: em2 calls_of_Invoke)
    with f2(2) have "(\<exists>g w. DeleteAddOn g a w \<in> set Down_steps \<and> enabled c1 g \<and> created c1 g)
                 \<or> DeleteNodeGroup a \<in> set Down_steps" by blast
    with swept_not_node_group[OF sw] obtain g w where
      g: "DeleteAddOn g a w \<in> set Down_steps" "created c1 g" by blast
    from swept_rows[OF sw g(1)] g(2) nc show False by simp
  qed
  have C: "r2 \<noteq> Panic \<longrightarrow>
            (a \<in> set swept_addons \<longrightarrow>
               count_list (calls_of (emitted t1 t2)) (Delete a)
                 = (if enabled c a \<and> created c1 a then 1 else 0))
            \<and> (a \<in> set node_group_addons \<longrightarrow>
               count_list (calls_of (emitted t1 t2)) (Delete a)
                 = (if enabled c a \<and> handle t a then 1 else 0))
            \<and> filter is_infra (calls_of (emitted t1 t2))
                 = [deleteKeyPair, deleteCluster, deleteEncryption, deleteClusterRole,
                    deleteVPC, deleteS3]"
  proof
    assume np: "r2 \<noteq> Panic"
    from down_returns[OF assms(2) np] obtain serr evs syncs where
      tr: "trace t2 = trace t1 @ DownStart # Invoke uploadToS3 serr # evs @ syncs"
      and pl: "calls_of evs = down_plan c1 (handle t1)"
      and sy: "calls_of syncs = [Sync] \<or> calls_of syncs = [Sync, Sync]"
      by (auto split: if_splits)
    from tr have em: "emitted t1 t2 = DownStart # Invoke uploadToS3 serr # evs @ syncs"
      by simp
    have cnt: "count_list (calls_of (emitted t1 t2)) (Delete a)
          = length (filter (deletes c1 (handle t1) a) Down_steps)"
      using sy by (auto simp: em calls_of_append pl down_plan_def count_planned)
    have inf: "filter is_infra (calls_of (emitted t1 t2))
                 = [deleteKeyPair, deleteCluster, deleteEncryption, deleteClusterRole,
                    deleteVPC, deleteS3]"
      using sy by (auto simp: em calls_of_append pl down_plan_infra)
    from cnt inf show "(a \<in> set swept_addons \<longrightarrow>
               count_list (calls_of (emitted t1 t2)) (Delete a)
                 = (if enabled c a \<and> created c1 a then 1 else 0))
            \<and> (a \<in> set node_group_addons \<longrightarrow>
               count_list (calls_of (emitted t1 t2)) (Delete a)
                 = (if enabled c a \<and> handle t a then 1 else 0))
            \<and> filter is_infra (calls_of (emitted t1 t2))
                 = [deleteKeyPair, deleteCluster, deleteEncryption, deleteClusterRole,
                    deleteVPC, deleteS3]"
      by (simp add: count_swept count_node_groups en1 h1)
  qed
  from A B C show ?thesis by blast
qed

text \<open>C5 (witness): the ALB add-on is deleted by the first \<open>down\<close> and left alone by the
  second, which attempts the six infrastructure deletions again.\<close>

theorem C5_second_down_skips_deleted_witness:
  "Invoke (Delete ALB2048) None \<in> set (emitted alb_tester (down_of quiet_env alb_config alb_tester))
   \<and> ALB2048 \<in> set swept_addons
   \<and> fst (second_down quiet_env alb_config alb_tester) \<noteq> Panic
   \<and> Delete ALB2048 \<notin> set (calls_of (emitted (down_of quiet_env alb_config alb_tester)
                                  (snd (snd (second_down quiet_env alb_config alb_tester)))))
   \<and> filter is_infra (calls_of (emitted (down_of quiet_env alb_config alb_tester)
                                  (snd (snd (second_down quiet_env alb_config alb_tester)))))
       = [deleteKeyPair, deleteCluster, deleteEncryption, deleteClusterRole, deleteVPC, deleteS3]"
proof -
  have i: "Invoke (Delete ALB2048) None \<in> set (emitted alb_tester (down_of quiet_env alb_config alb_tester))"
    by (simp add: eval_down alb_config_def alb_tester_def)
  have m: "ALB2048 \<in> set swept_addons" by (simp add: swept_addons_def)
  have np: "fst (second_down quiet_env alb_config alb_tester) \<noteq> Panic"
    by (simp add: eval_down second_down_def alb_config_def alb_tester_def)
  obtain c1 where c1: "fst (snd (down quiet_env (Some alb_config, alb_tester))) = Some c1"
    by (simp add: eval_down alb_config_def alb_tester_def)
  have h1: "down quiet_env (Some alb_config, alb_tester)
     = (fst (down quiet_env (Some alb_config, alb_tester)), (Some c1, down_of quiet_env alb_config alb_tester))"
    using c1 down_split[of quiet_env alb_config alb_tester] by simp
  have h2: "down quiet_env (Some c1, down_of quiet_env alb_config alb_tester)
     = (fst (second_down quiet_env alb_config alb_tester),
        (fst (snd (second_down quiet_env alb_config alb_tester)),
         snd (snd (second_down quiet_env alb_config alb_tester))))"
  proof -
    have sp: "snd (down quiet_env (Some alb_config, alb_tester))
        = (Some c1, down_of quiet_env alb_config alb_tester)"
      using c1 by (simp add: down_of_def prod_eq_iff)
    show ?thesis unfolding second_down_def sp by simp
  qed
  from C5_second_down_skips_deleted[OF h1 h2, of ALB2048] i m np show ?thesis
    by blast
qed

section \<open>The phases of Up\<close>

declare emitted_append [simp del]

lemma interrupts_append: "interrupts (xs @ ys) = interrupts xs + interrupts ys"
  by (induction xs rule: interrupts.induct) auto

lemma step_relI:
  assumes "same_but_created c c'" "trace t' = trace t @ evs" "DownStart \<notin> set evs"
    "interrupts evs \<le> 1" "r = Ok \<Longrightarrow> interrupts evs = 0" "list_all P (calls_of evs)"
  shows "step_rel P (c, t) r (c', t')"
proof -
  from assms(2) have "emitted t t' = evs" by (rule emitted_append)
  with assms show ?thesis by (simp add: step_rel_def)
qed

lemma step_relD:
  assumes "step_rel P (c, t) r (c', t')"
  shows "same_but_created c c'" "trace t' = trace t @ emitted t t'"
    "DownStart \<notin> set (emitted t t')" "interrupts (emitted t t') \<le> 1"
    "r = Ok \<Longrightarrow> interrupts (emitted t t') = 0" "list_all P (calls_of (emitted t t'))"
  using assms by (simp_all add: step_rel_def)

lemma step_rel_refl: "step_rel P s Ok s"
  by (cases s) (simp add: step_rel_def emitted_def)

lemma step_rel_mono:
  assumes "step_rel P s r s'" "\<And>k. P k \<Longrightarrow> Q k"
  shows "step_rel Q s r s'"
  using assms by (auto simp: step_rel_def list_all_iff)

lemma step_rel_weaken: "step_rel P s Ok s' \<Longrightarrow> step_rel P s r s'"
  by (simp add: step_rel_def)

lemma step_rel_seq:
  assumes "step_rel P s r1 s1" "step_rel P s1 r s2" "r1 = Ok \<or> r = Ok"
    "r' = Ok \<Longrightarrow> r1 = Ok \<and> r = Ok"
  shows "step_rel P s r' s2"
proof -
  obtain c t c1 t1 c2 t2 where s: "s = (c, t)" "s1 = (c1, t1)" "s2 = (c2, t2)"
    by (metis prod.exhaust)
  note a = step_relD[OF assms(1)[unfolded s]] and b = step_relD[OF assms(2)[unfolded s]]
  have i0: "interrupts (emitted t t1) = 0 \<or> interrupts (emitted t1 t2) = 0"
    using assms(3) a(5) b(5) by auto
  show ?thesis
    unfolding s
  proof (rule step_relI[where evs = "emitted t t1 @ emitted t1 t2"])
    show "same_but_created c c2" using a(1) b(1) by (rule same_but_created_trans)
    show "trace t2 = trace t @ emitted t t1 @ emitted t1 t2" using a(2) b(2) by simp
    show "DownStart \<notin> set (emitted t t1 @ emitted t1 t2)" using a(3) b(3) by simp
    show "interrupts (emitted t t1 @ emitted t1 t2) \<le> 1"
      using i0 a(4) b(4) by (auto simp: interrupts_append)
    show "interrupts (emitted t t1 @ emitted t1 t2) = 0" if "r' = Ok"
      using assms(4)[OF that] a(5) b(5) by (auto simp: interrupts_append)
    show "list_all P (calls_of (emitted t t1 @ emitted t1 t2))"
      using a(6) b(6) by (simp add: calls_of_append)
  qed
qed

lemma step_rel_trans:
  assumes "step_rel P s Ok s1" "step_rel P s1 r s2"
  shows "step_rel P s r s2"
  by (rule step_rel_seq[OF assms]) simp_all

lemma step_rel_then_quiet:
  assumes "step_rel P s r s1" "step_rel P s1 Ok s2"
  shows "step_rel P s r s2"
  by (rule step_rel_seq[OF assms]) simp_all

lemma run_steps_rel:
  "\<forall>f\<in>set fs. \<forall>s r s'. f s = (r, s') \<longrightarrow> step_rel P s r s' \<Longrightarrow>
     run_steps fs s = (r, s') \<Longrightarrow> step_rel P s r s'"
proof (induction fs arbitrary: s)
  case Nil
  then show ?case by (simp add: step_rel_refl)
next
  case (Cons f fs)
  obtain r1 s1 where f: "f s = (r1, s1)" by (metis prod.exhaust)
  have "f \<in> set (f # fs)" by simp
  from Cons.prems(1)[THEN bspec, OF this, rule_format, OF f] have r1: "step_rel P s r1 s1" .
  have rest: "\<forall>f\<in>set fs. \<forall>s r s'. f s = (r, s') \<longrightarrow> step_rel P s r s'"
  proof
    fix g assume "g \<in> set fs"
    then have "g \<in> set (f # fs)" by simp
    from Cons.prems(1)[THEN bspec, OF this]
    show "\<forall>s r s'. g s = (r, s') \<longrightarrow> step_rel P s r s'" .
  qed
  show ?case
  proof (cases r1)
    case Ok
    with Cons.prems(2) f have "run_steps fs s1 = (r, s')" by simp
    from Cons.IH[OF rest this] have "step_rel P s1 r s'" .
    with r1[unfolded Ok] show ?thesis by (rule step_rel_trans)
  next
    case (Err e)
    with Cons.prems(2) f r1 show ?thesis by simp
  next
    case Panic
    with Cons.prems(2) f r1 show ?thesis by simp
  qed
qed

lemma invoke_rel:
  assumes "invoke env k s = (r0, s')" "P k"
  shows "step_rel P s Ok s'"
proof -
  obtain c t c' t' where s: "s = (c, t)" "s' = (c', t')" by (metis prod.exhaust)
  from invoke_facts[OF assms(1)[unfolded s]] assms(2)
  show ?thesis unfolding s
    by (intro step_relI[where evs = "[Invoke k r0]"]) auto
qed

lemma sleep_rel: "step_rel P s Ok (sleep n s)"
  by (cases s) (auto simp: sleep_def log_def intro!: step_relI[where evs = "[Sleep n]"])

lemma construct_facts:
  assumes "construct env b (c, t) = (r0, (c', t'))"
  shows "same_but_created c c' \<and> stopCreationCh t' = stopCreationCh t
      \<and> stopCreationChOnce t' = stopCreationChOnce t
      \<and> (\<exists>evs. trace t' = trace t @ evs \<and> DownStart \<notin> set evs \<and> interrupts evs = 0
             \<and> list_all is_constructor (calls_of evs))"
proof (cases b)
  case (Sub a chk)
  obtain r1 c1 t1 where i: "invoke env (NewTester a) (c, t) = (r1, (c1, t1))"
    by (metis prod.exhaust)
  from invoke_facts[OF i] invoke_stop[OF i] assms Sub i show ?thesis
    by (cases "enabled c a") auto
next
  case SubGPU
  obtain r1 c1 t1 where i: "invoke env NewGPUTester (c, t) = (r1, (c1, t1))"
    by (metis prod.exhaust)
  from invoke_facts[OF i] invoke_stop[OF i] assms SubGPU i show ?thesis
    by (cases "enabled c NodeGroups \<or> enabled c ManagedNodeGroups") auto
qed

lemma build_facts:
  "build env bs (c, t) = (r0, (c', t')) \<Longrightarrow>
     same_but_created c c' \<and> stopCreationCh t' = stopCreationCh t
      \<and> stopCreationChOnce t' = stopCreationChOnce t
      \<and> (\<exists>evs. trace t' = trace t @ evs \<and> DownStart \<notin> set evs \<and> interrupts evs = 0
             \<and> list_all (\<lambda>j. is_constructor j \<or> j = Sync) (calls_of evs))"
proof (induction bs arbitrary: c t)
  case Nil
  then have i: "invoke env Sync (c, t) = (r0, (c', t'))" by simp
  from invoke_facts[OF i] invoke_stop[OF i] show ?case by auto
next
  case (Cons b bs)
  obtain r1 c1 t1 where cb: "construct env b (c, t) = (r1, (c1, t1))"
    by (metis prod.exhaust)
  from construct_facts[OF cb] obtain e1 where
    f1: "same_but_created c c1" "stopCreationCh t1 = stopCreationCh t"
        "stopCreationChOnce t1 = stopCreationChOnce t"
        "trace t1 = trace t @ e1" "DownStart \<notin> set e1" "interrupts e1 = 0"
        "list_all is_constructor (calls_of e1)"
    by blast
  from f1(7) have f1': "list_all (\<lambda>j. is_constructor j \<or> j = Sync) (calls_of e1)"
    by (auto simp: list_all_iff)
  show ?case
  proof (cases r1)
    case (Some e)
    with Cons.prems cb have "c' = c1" "t' = t1" by simp_all
    with f1 f1' show ?thesis by blast
  next
    case None
    with Cons.prems cb have "build env bs (c1, t1) = (r0, (c', t'))" by simp
    from Cons.IH[OF this] obtain e2 where
      f2: "same_but_created c1 c'" "stopCreationCh t' = stopCreationCh t1"
          "stopCreationChOnce t' = stopCreationChOnce t1"
          "trace t' = trace t1 @ e2" "DownStart \<notin> set e2" "interrupts e2 = 0"
          "list_all (\<lambda>j. is_constructor j \<or> j = Sync) (calls_of e2)"
      by blast
    have "trace t' = trace t @ (e1 @ e2)" using f1(4) f2(4) by simp
    moreover have "DownStart \<notin> set (e1 @ e2)" using f1(5) f2(5) by simp
    moreover have "interrupts (e1 @ e2) = 0" using f1(6) f2(6) by (simp add: interrupts_append)
    moreover have "list_all (\<lambda>j. is_constructor j \<or> j = Sync) (calls_of (e1 @ e2))"
      using f1' f2(7) by (simp add: calls_of_append)
    moreover have "same_but_created c c'" using f1(1) f2(1) by (rule same_but_created_trans)
    ultimately show ?thesis using f1(2,3) f2(2,3) by (intro conjI exI[of _ "e1 @ e2"]) simp_all
  qed
qed

lemma perform_facts:
  assumes "perform env k (c, t) = (r0, (c', t'))"
  shows "same_but_created c c' \<and> stopCreationCh t' = stopCreationCh t
      \<and> stopCreationChOnce t' = stopCreationChOnce t
      \<and> (\<exists>rk more. trace t' = trace t @ Invoke k rk # more \<and> DownStart \<notin> set more
             \<and> interrupts more = 0
             \<and> list_all (\<lambda>j. is_constructor j \<or> j = Sync) (calls_of more)
             \<and> (k \<noteq> createCluster \<longrightarrow> more = [] \<and> rk = r0))"
proof (cases "k = createCluster")
  case False
  with assms have i: "invoke env k (c, t) = (r0, (c', t'))" by (simp add: perform_def)
  from invoke_facts[OF i] invoke_stop[OF i] False show ?thesis by auto
next
  case True
  obtain r1 c1 t1 where i: "invoke env createCluster (c, t) = (r1, (c1, t1))"
    by (metis prod.exhaust)
  note f = invoke_facts[OF i] invoke_stop[OF i]
  have sc1: "same_but_created c c1" using f(3) by simp
  show ?thesis
  proof (cases r1)
    case (Some e)
    with assms True i have "c' = c1" "t' = t1"
      by (simp_all add: perform_def createCluster_method_def)
    with f sc1 True show ?thesis by auto
  next
    case None
    with assms True i have "build env SubTesters (c1, t1) = (r0, (c', t'))"
      by (simp add: perform_def createCluster_method_def createSubTesters_def)
    from build_facts[OF this] obtain e2 where
      f2: "same_but_created c1 c'" "stopCreationCh t' = stopCreationCh t1"
          "stopCreationChOnce t' = stopCreationChOnce t1"
          "trace t' = trace t1 @ e2" "DownStart \<notin> set e2" "interrupts e2 = 0"
          "list_all (\<lambda>j. is_constructor j \<or> j = Sync) (calls_of e2)"
      by blast
    have "same_but_created c c'" using sc1 f2(1) by (rule same_but_created_trans)
    moreover have "trace t' = trace t @ Invoke k r1 # e2" using f(1) f2(4) True by simp
    ultimately show ?thesis using f(5,6) f2(2,3,5,6,7) True
      by (intro conjI exI[of _ r1] exI[of _ e2]) simp_all
  qed
qed

lemma fire_fired: "stopCreationChOnce t \<Longrightarrow> fire_all sgs t = Some t"
  by (induction sgs) (simp_all add: fire_def)

lemma fire_all_frame:
  "fire_all sgs t = Some t' \<Longrightarrow>
     trace t' = trace t \<and> handle t' = handle t \<and> gpuTester t' = gpuTester t \<and> world t' = world t"
proof (induction sgs arbitrary: t)
  case Nil
  then show ?case by simp
next
  case (Cons sg sgs)
  then show ?case
    by (auto simp: fire_def close_ch_def split: option.splits if_splits)
qed

lemma fire_all_safe: "\<not> stopCreationCh t \<Longrightarrow> \<exists>t'. fire_all sgs t = Some t'"
proof (cases sgs)
  case Nil
  then show ?thesis by simp
next
  case (Cons sg sgs')
  assume ns: "\<not> stopCreationCh t"
  show ?thesis
  proof (cases "stopCreationChOnce t")
    case True
    then show ?thesis by (simp add: fire_fired)
  next
    case False
    with ns have "fire t = Some (t\<lparr>stopCreationCh := True, stopCreationChOnce := True\<rparr>)"
      by (simp add: fire_def close_ch_def)
    then show ?thesis using Cons by (simp add: fire_fired)
  qed
qed

lemma catchInterrupt_shape:
  assumes "catchInterrupt env k (c, t) = (r, (c', t'))"
  shows "same_but_created c c' \<and> r \<noteq> Panic
      \<and> (\<exists>rk more tl. trace t' = trace t @ Invoke k rk # more @ tl \<and> DownStart \<notin> set more
             \<and> interrupts more = 0
             \<and> list_all (\<lambda>j. is_constructor j \<or> j = Sync) (calls_of more)
             \<and> (k \<noteq> createCluster \<longrightarrow> more = [])
             \<and> ((tl = [] \<and> (r = Ok \<or> (\<exists>e. r = Err e)))
                  \<or> (tl = [Interrupted k] \<and> r = Err interrupted)))"
proof -
  obtain r0 c1 t1 where p: "perform env k (c, t) = (r0, (c1, t1))" by (metis prod.exhaust)
  from perform_facts[OF p] obtain rk more where
    f: "same_but_created c c1" "trace t1 = trace t @ Invoke k rk # more" "DownStart \<notin> set more"
       "interrupts more = 0" "list_all (\<lambda>j. is_constructor j \<or> j = Sync) (calls_of more)"
       "k \<noteq> createCluster \<longrightarrow> more = []"
    by blast
  have shape: "c' = c1 \<and> r \<noteq> Panic
      \<and> ((trace t' = trace t1 \<and> (r = Ok \<or> (\<exists>e. r = Err e)))
         \<or> (trace t' = trace t1 @ [Interrupted k] \<and> r = Err interrupted))"
  proof (cases "stopCreationCh t1")
    case True
    with assms p show ?thesis by (auto simp: catchInterrupt_def log_def)
  next
    case False
    show ?thesis
    proof (cases "signals env k (world t) = []")
      case True
      with assms p False show ?thesis
        by (cases r0) (auto simp: catchInterrupt_def log_def)
    next
      case ne: False
      from fire_all_safe[OF False] obtain t2 where
        fa: "fire_all (signals env k (world t)) t1 = Some t2" by blast
      from fire_all_frame[OF fa] assms p False ne fa show ?thesis
        by (auto simp: catchInterrupt_def log_def)
    qed
  qed
  from shape consider
    (plain) "trace t' = trace t1" "r = Ok \<or> (\<exists>e. r = Err e)"
    | (intr) "trace t' = trace t1 @ [Interrupted k]" "r = Err interrupted"
    by blast
  then have "\<exists>tl. trace t' = trace t @ Invoke k rk # more @ tl
      \<and> ((tl = [] \<and> (r = Ok \<or> (\<exists>e. r = Err e))) \<or> (tl = [Interrupted k] \<and> r = Err interrupted))"
  proof cases
    case plain
    with f(2) show ?thesis by (intro exI[of _ "[]"]) simp
  next
    case intr
    with f(2) show ?thesis by (intro exI[of _ "[Interrupted k]"]) simp
  qed
  with shape f show ?thesis by blast
qed

lemma catchInterrupt_rel:
  assumes "catchInterrupt env k s = (r, s')"
  shows "step_rel (phase_call (Step k)) s r s'"
proof -
  obtain c t c' t' where s: "s = (c, t)" "s' = (c', t')" by (metis prod.exhaust)
  from catchInterrupt_shape[OF assms[unfolded s]] obtain rk more tl where
    f: "same_but_created c c'" "trace t' = trace t @ Invoke k rk # more @ tl"
       "DownStart \<notin> set more" "interrupts more = 0"
       "list_all (\<lambda>j. is_constructor j \<or> j = Sync) (calls_of more)"
       "k \<noteq> createCluster \<longrightarrow> more = []"
       "(tl = [] \<and> (r = Ok \<or> (\<exists>e. r = Err e))) \<or> (tl = [Interrupted k] \<and> r = Err interrupted)"
    by blast
  have pc: "list_all (phase_call (Step k)) (calls_of more)"
    using f(5,6) by (cases "k = createCluster") (auto simp: list_all_iff)
  show ?thesis unfolding s
  proof (rule step_relI[where evs = "Invoke k rk # more @ tl"])
    show "same_but_created c c'" by (rule f(1))
    show "trace t' = trace t @ Invoke k rk # more @ tl" by (rule f(2))
    show "DownStart \<notin> set (Invoke k rk # more @ tl)" using f(3,7) by auto
    show "interrupts (Invoke k rk # more @ tl) \<le> 1"
      using f(4,7) by (auto simp: interrupts_append)
    show "interrupts (Invoke k rk # more @ tl) = 0" if "r = Ok"
      using that f(4,7) by (auto simp: interrupts_append)
    show "list_all (phase_call (Step k)) (calls_of (Invoke k rk # more @ tl))"
      using pc f(7) by (auto simp: calls_of_append)
  qed
qed

lemma catchInterrupt_calls:
  assumes "catchInterrupt env k (c, t) = (r, (c', t'))"
  shows "\<exists>evs. trace t' = trace t @ evs \<and> filter provisioning (calls_of evs) = filter provisioning [k]"
proof -
  from catchInterrupt_shape[OF assms] obtain rk more tl where
    f: "trace t' = trace t @ Invoke k rk # more @ tl"
       "list_all (\<lambda>j. is_constructor j \<or> j = Sync) (calls_of more)"
       "(tl = [] \<and> (r = Ok \<or> (\<exists>e. r = Err e))) \<or> (tl = [Interrupted k] \<and> r = Err interrupted)"
    by blast
  have np: "\<And>j. is_constructor j \<or> j = Sync \<Longrightarrow> \<not> provisioning j"
    by (case_tac j) auto
  from f(2) np have "filter provisioning (calls_of more) = []"
    by (auto simp: list_all_iff filter_empty_conv)
  moreover from f(3) have "calls_of tl = []" by auto
  ultimately have "filter provisioning (calls_of (Invoke k rk # more @ tl)) = filter provisioning [k]"
    by (simp add: calls_of_append)
  with f(1) show ?thesis by blast
qed

lemma catchInterrupt_after_fire:
  assumes "stopCreationCh t"
  shows "fst (catchInterrupt env k (c, t)) = Err interrupted"
proof -
  obtain r0 c1 t1 where p: "perform env k (c, t) = (r0, (c1, t1))" by (metis prod.exhaust)
  from perform_facts[OF p] assms have "stopCreationCh t1" by simp
  with p show ?thesis by (simp add: catchInterrupt_def)
qed

lemma aggregate_rel:
  assumes "aggregate env b s = (r, s')"
    and "b \<in> set [CSRsRemote, SecretsRemote, IRSA, ConfigMapsRemote, ClusterLoaderRemote, StresserRemote]"
  shows "step_rel (phase_call AggregateAll) s r s'"
proof -
  obtain c t where s: "s = (c, t)" by (metis prod.exhaust)
  show ?thesis
  proof (cases "enabled c b")
    case False
    with assms s show ?thesis by (simp add: aggregate_def step_rel_refl)
  next
    case True
    show ?thesis
    proof (cases "handle t b")
      case False
      with assms s True have "r = Panic" "s' = s" by (simp_all add: aggregate_def)
      then show ?thesis by (simp add: step_rel_weaken[OF step_rel_refl])
    next
      case h: True
      with assms s True have "catchInterrupt env (AggregateResults b) s = (r, s')"
        by (simp add: aggregate_def)
      from catchInterrupt_rel[OF this] show ?thesis
        by (rule step_rel_mono) (use assms(2) in auto)
    qed
  qed
qed

lemma up_step_rel:
  assumes "up_step env p s = (r, s')"
  shows "step_rel (phase_call p) s r s'"
proof -
  obtain c t where s: "s = (c, t)" by (metis prod.exhaust)
  show ?thesis
  proof (cases p)
    case (Step k)
    with assms have "catchInterrupt env k s = (r, s')" by simp
    from catchInterrupt_rel[OF this] Step show ?thesis by simp
  next
    case (SleepStep n)
    with assms show ?thesis by (auto simp: sleep_rel)
  next
    case (CommandHook h)
    show ?thesis
    proof (cases "command h c = []")
      case True
      with assms s CommandHook show ?thesis by (simp add: step_rel_refl)
    next
      case False
      obtain r1 s1 where i1: "invoke env EvaluateCommandRefs s = (r1, s1)" by (metis prod.exhaust)
      obtain r2 s2 where i2: "invoke env (runCommand h) s1 = (r2, s2)" by (metis prod.exhaust)
      obtain r3 s3 where i3: "invoke env (WriteFile h) s2 = (r3, s3)" by (metis prod.exhaust)
      have q1: "step_rel (phase_call p) s Ok s1" by (rule invoke_rel[OF i1]) (simp add: CommandHook)
      have q2: "step_rel (phase_call p) s1 Ok s2" by (rule invoke_rel[OF i2]) (simp add: CommandHook)
      have q3: "step_rel (phase_call p) s2 Ok s3" by (rule invoke_rel[OF i3]) (simp add: CommandHook)
      have q13: "step_rel (phase_call p) s Ok s3"
        using q1 q2 q3 by (blast intro: step_rel_trans)
      show ?thesis
      proof (cases r1)
        case (Some e)
        with assms s CommandHook False i1 have "s' = s1" by simp
        with q1 show ?thesis by (simp add: step_rel_weaken)
      next
        case None
        with assms s CommandHook False i1 i2 i3 have "s' = s3"
          by (cases r3) simp_all
        with q13 show ?thesis by (simp add: step_rel_weaken)
      qed
    qed
  next
    case (CreateAddOn b)
    show ?thesis
    proof (cases "enabled c b \<and> handle t b")
      case False
      with assms s CreateAddOn have "s' = s" by (auto split: if_splits)
      then show ?thesis by (simp add: step_rel_weaken[OF step_rel_refl])
    next
      case True
      obtain r1 s1 where ci: "catchInterrupt env (Create b) (c, t) = (r1, s1)"
        by (metis prod.exhaust)
      have q1: "step_rel (phase_call p) (c, t) r1 s1"
        by (rule step_rel_mono[OF catchInterrupt_rel[OF ci]]) (simp add: CreateAddOn)
      show ?thesis
      proof (cases "b = Conformance")
        case False
        with assms s CreateAddOn True ci have "r = r1" "s' = s1" by simp_all
        with q1 s show ?thesis by simp
      next
        case conf: True
        obtain r2 s2 where i2: "invoke env uploadToS3 s1 = (r2, s2)" by (metis prod.exhaust)
        have q2: "step_rel (phase_call p) s1 Ok s2"
          by (rule invoke_rel[OF i2]) (simp add: CreateAddOn conf)
        from assms s CreateAddOn True ci conf i2 have "r = r1" "s' = s2" by simp_all
        with step_rel_then_quiet[OF q1 q2] s show ?thesis by simp
      qed
    qed
  next
    case GPUBootstrap
    show ?thesis
    proof (cases "needGPU c")
      case False
      with assms s GPUBootstrap show ?thesis by (simp add: step_rel_refl)
    next
      case ng: True
      show ?thesis
      proof (cases "gpuTester t")
        case False
        with assms s GPUBootstrap ng have "s' = s" by simp
        then show ?thesis by (simp add: step_rel_weaken[OF step_rel_refl])
      next
        case g: True
        obtain r1 s1 where c1: "catchInterrupt env InstallNvidiaDriver s = (r1, s1)"
          by (metis prod.exhaust)
        have q1: "step_rel (phase_call p) s r1 s1"
          by (rule step_rel_mono[OF catchInterrupt_rel[OF c1]]) (simp add: GPUBootstrap)
        show ?thesis
        proof (cases r1)
          case Ok
          with assms s GPUBootstrap ng g c1 have c2: "catchInterrupt env CreateNvidiaSMI s1 = (r, s')"
            by simp
          have "step_rel (phase_call p) s1 r s'"
            by (rule step_rel_mono[OF catchInterrupt_rel[OF c2]]) (simp add: GPUBootstrap)
          with q1[unfolded Ok] show ?thesis by (rule step_rel_trans)
        next
          case (Err e)
          with assms s GPUBootstrap ng g c1 q1 show ?thesis by simp
        next
          case Panic
          with assms s GPUBootstrap ng g c1 q1 show ?thesis by simp
        qed
      qed
    qed
  next
    case UploadArtifacts
    obtain r1 s1 where i1: "invoke env uploadToS3 s = (r1, s1)" by (metis prod.exhaust)
    have "step_rel (phase_call p) s Ok s1" by (rule invoke_rel[OF i1]) (simp add: UploadArtifacts)
    with assms UploadArtifacts i1 show ?thesis by simp
  next
    case (NodeFetchLogs b)
    show ?thesis
    proof (cases "logs_wanted c b")
      case False
      with assms s NodeFetchLogs show ?thesis by (simp add: step_rel_refl)
    next
      case lw: True
      show ?thesis
      proof (cases "handle t b")
        case False
        with assms s NodeFetchLogs lw have "s' = s" by simp
        then show ?thesis by (simp add: step_rel_weaken[OF step_rel_refl])
      next
        case True
        with assms s NodeFetchLogs lw have c2: "catchInterrupt env (FetchLogs b) (sleep 15 s) = (r, s')"
          by simp
        have "step_rel (phase_call p) (sleep 15 s) r s'"
          by (rule step_rel_mono[OF catchInterrupt_rel[OF c2]]) (simp add: NodeFetchLogs)
        with sleep_rel[of "phase_call p" s 15] show ?thesis by (rule step_rel_trans)
      qed
    qed
  next
    case AggregateAll
    show ?thesis
    proof (cases "logs_wanted c NodeGroups \<or> logs_wanted c ManagedNodeGroups")
      case False
      with assms s AggregateAll show ?thesis by (simp add: step_rel_refl)
    next
      case True
      with assms s AggregateAll have
        "run_steps (map (aggregate env)
               [CSRsRemote, SecretsRemote, IRSA, ConfigMapsRemote, ClusterLoaderRemote,
                StresserRemote]) s = (r, s')"
        by simp
      moreover have "\<forall>f\<in>set (map (aggregate env)
               [CSRsRemote, SecretsRemote, IRSA, ConfigMapsRemote, ClusterLoaderRemote,
                StresserRemote]). \<forall>s r s'. f s = (r, s') \<longrightarrow> step_rel (phase_call AggregateAll) s r s'"
      proof (intro ballI allI impI)
        fix f u q u'
        assume f: "f \<in> set (map (aggregate env)
               [CSRsRemote, SecretsRemote, IRSA, ConfigMapsRemote, ClusterLoaderRemote,
                StresserRemote])" and fu: "f u = (q, u')"
        from f obtain b where b: "f = aggregate env b"
          "b \<in> set [CSRsRemote, SecretsRemote, IRSA, ConfigMapsRemote, ClusterLoaderRemote, StresserRemote]"
          by auto
        from aggregate_rel[OF fu[unfolded b(1)] b(2)]
        show "step_rel (phase_call AggregateAll) u q u'" .
      qed
      ultimately show ?thesis unfolding AggregateAll by (rule run_steps_rel[rotated])
    qed
  qed
qed

lemma up_steps_rel:
  assumes "run_steps (map (up_step env) ps) s = (r, s')"
  shows "step_rel (\<lambda>k. list_ex (\<lambda>p. phase_call p k) ps) s r s'"
proof (rule run_steps_rel[OF _ assms])
  show "\<forall>f\<in>set (map (up_step env) ps). \<forall>s r s'. f s = (r, s')
          \<longrightarrow> step_rel (\<lambda>k. list_ex (\<lambda>p. phase_call p k) ps) s r s'"
  proof (intro ballI allI impI)
    fix f u q u' assume f: "f \<in> set (map (up_step env) ps)" and fu: "f u = (q, u')"
    from f obtain p where p: "p \<in> set ps" "f = up_step env p" by auto
    from up_step_rel[OF fu[unfolded p(2)]] show "step_rel (\<lambda>k. list_ex (\<lambda>p. phase_call p k) ps) u q u'"
      by (rule step_rel_mono) (use p(1) in \<open>auto simp: list_ex_iff\<close>)
  qed
qed

lemma Up_body_rel:
  assumes "Up_body env s = (r, s')"
  shows "step_rel (\<lambda>k. k = Sync \<or> list_ex (\<lambda>p. phase_call p k) Up_steps) s r s'"
proof -
  let ?P = "\<lambda>k. k = Sync \<or> list_ex (\<lambda>p. phase_call p k) Up_steps"
  obtain r1 s1 where rs: "run_steps (map (up_step env) Up_steps) s = (r1, s1)"
    by (metis prod.exhaust)
  have q1: "step_rel ?P s r1 s1"
    by (rule step_rel_mono[OF up_steps_rel[OF rs]]) simp
  show ?thesis
  proof (cases r1)
    case Ok
    obtain r2 s2 where i: "invoke env Sync s1 = (r2, s2)" by (metis prod.exhaust)
    have "step_rel ?P s1 Ok s2" by (rule invoke_rel[OF i]) simp
    with q1[unfolded Ok] have "step_rel ?P s Ok s2" by (rule step_rel_trans)
    moreover from assms rs Ok i have "s' = s2" by (simp add: Up_body_def)
    ultimately show ?thesis by (simp add: step_rel_weaken)
  next
    case (Err e)
    with assms rs q1 show ?thesis by (simp add: Up_body_def)
  next
    case Panic
    with assms rs q1 show ?thesis by (simp add: Up_body_def)
  qed
qed

lemma run_steps_append:
  "run_steps (fs @ gs) s =
     (case run_steps fs s of (Ok, s1) \<Rightarrow> run_steps gs s1 | (Err e, s1) \<Rightarrow> (Err e, s1)
      | (Panic, s1) \<Rightarrow> (Panic, s1))"
proof (induction fs arbitrary: s)
  case Nil
  then show ?case by simp
next
  case (Cons f fs)
  obtain r s1 where "f s = (r, s1)" by (metis prod.exhaust)
  with Cons show ?case by (cases r) simp_all
qed

lemma steps_calls:
  "list_all provisioning ks \<Longrightarrow>
   run_steps (map (up_step env) (map Step ks)) (c, t) = (r, (c', t')) \<Longrightarrow>
     \<exists>evs n. trace t' = trace t @ evs \<and> filter provisioning (calls_of evs) = take n ks
        \<and> n \<le> length ks \<and> (r = Ok \<longrightarrow> n = length ks) \<and> (ks \<noteq> [] \<longrightarrow> 0 < n)"
proof (induction ks arbitrary: c t)
  case Nil
  then show ?case by simp
next
  case (Cons k ks)
  obtain r1 c1 t1 where ci: "catchInterrupt env k (c, t) = (r1, (c1, t1))"
    by (metis prod.exhaust)
  from Cons.prems(1) have pk: "provisioning k" and pks: "list_all provisioning ks" by simp_all
  from catchInterrupt_calls[OF ci] pk obtain e1 where
    e1: "trace t1 = trace t @ e1" "filter provisioning (calls_of e1) = [k]"
    by auto
  show ?case
  proof (cases "r1 = Ok")
    case False
    with Cons.prems(2) ci have "r = r1" "c' = c1" "t' = t1" by (cases r1; simp)+
    with e1 False show ?thesis
      by (intro exI[of _ e1] exI[of _ 1]) simp
  next
    case True
    with Cons.prems(2) ci have rest: "run_steps (map (up_step env) (map Step ks)) (c1, t1) = (r, (c', t'))"
      by simp
    from Cons.IH[OF pks rest] obtain e2 n where
      e2: "trace t' = trace t1 @ e2" "filter provisioning (calls_of e2) = take n ks"
          "n \<le> length ks" "r = Ok \<longrightarrow> n = length ks"
      by blast
    from e1 e2 show ?thesis
      by (intro exI[of _ "e1 @ e2"] exI[of _ "Suc n"]) (simp add: calls_of_append)
  qed
qed

lemma down_step_events:
  assumes "down_step env p (c, t) = (r, (c', t'))" "\<forall>k. p = Infra k \<longrightarrow> is_deletion k"
  shows "\<exists>evs. trace t' = trace t @ evs \<and> interrupts evs = 0 \<and> list_all cleanup_call (calls_of evs)"
proof (cases p)
  case (Infra k)
  obtain r0 c0 t0 where i: "invoke env k (c, t) = (r0, (c0, t0))" by (metis prod.exhaust)
  from invoke_facts(1)[OF i] assms Infra i show ?thesis by (auto simp: cleanup_call_def)
next
  case (DeleteAddOn g b w)
  obtain r0 c0 t0 where i: "invoke env (Delete b) (c, t) = (r0, (c0, t0))" by (metis prod.exhaust)
  from invoke_facts(1)[OF i] assms DeleteAddOn i show ?thesis
    by (cases r0; cases w) (auto simp: sleep_def log_def cleanup_call_def split: if_splits)
next
  case LBWait
  with assms show ?thesis by (auto simp: sleep_def log_def split: if_splits)
next
  case (DeleteNodeGroup g)
  obtain r0 c0 t0 where i: "invoke env (Delete g) (c, t) = (r0, (c0, t0))" by (metis prod.exhaust)
  from invoke_facts(1)[OF i] assms DeleteNodeGroup i show ?thesis
    by (auto simp: sleep_def log_def cleanup_call_def split: if_splits)
next
  case VPCWait
  with assms show ?thesis by (auto simp: sleep_def log_def split: if_splits)
qed

lemma run_down_events:
  "\<forall>p\<in>set ps. \<forall>k. p = Infra k \<longrightarrow> is_deletion k \<Longrightarrow>
   run_down env ps errs (c, t) = (ro, (c', t')) \<Longrightarrow>
     \<exists>evs. trace t' = trace t @ evs \<and> interrupts evs = 0 \<and> list_all cleanup_call (calls_of evs)"
proof (induction ps arbitrary: errs c t)
  case Nil
  then show ?case by simp
next
  case (Cons p ps)
  obtain r1 c1 t1 where st: "down_step env p (c, t) = (r1, (c1, t1))" by (metis prod.exhaust)
  from Cons.prems(1) have hp: "\<forall>k. p = Infra k \<longrightarrow> is_deletion k"
    and hps: "\<forall>p\<in>set ps. \<forall>k. p = Infra k \<longrightarrow> is_deletion k" by simp_all
  from down_step_events[OF st hp] obtain e1 where
    e1: "trace t1 = trace t @ e1" "interrupts e1 = 0" "list_all cleanup_call (calls_of e1)"
    by blast
  show ?case
  proof (cases "r1 = Panic")
    case True
    with Cons.prems(2) st e1 show ?thesis by auto
  next
    case False
    define errs1 where "errs1 = (case r1 of Err e \<Rightarrow> errs @ [e] | _ \<Rightarrow> errs)"
    from Cons.prems(2) st False have run: "run_down env ps errs1 (c1, t1) = (ro, (c', t'))"
      by (cases r1) (auto simp: errs1_def)
    from Cons.IH[OF hps run] obtain e2 where
      e2: "trace t' = trace t1 @ e2" "interrupts e2 = 0" "list_all cleanup_call (calls_of e2)"
      by blast
    from e1 e2 show ?thesis
      by (intro exI[of _ "e1 @ e2"]) (simp add: interrupts_append calls_of_append)
  qed
qed

lemma Down_steps_infra: "\<forall>p\<in>set Down_steps. \<forall>k. p = Infra k \<longrightarrow> is_deletion k"
  by (simp add: Down_steps_def)

lemma down_events:
  assumes "down env (co, t) = (r, (co', t'))"
  shows "\<exists>evs. trace t' = trace t @ evs \<and> interrupts evs = 0 \<and> list_all cleanup_call (calls_of evs)"
proof (cases co)
  case None
  with assms show ?thesis by (simp add: down_def)
next
  case (Some c)
  show ?thesis
  proof (cases "Status c")
    case None
    with assms Some show ?thesis by (auto simp: down_def log_def)
  next
    case st: (Some st)
    obtain serr c1 t1 where u: "invoke env uploadToS3 (c, log DownStart t) = (serr, (c1, t1))"
      by (metis prod.exhaust)
    from invoke_facts(1)[OF u] have tr1: "trace t1 = trace t @ [DownStart, Invoke uploadToS3 serr]"
      by (simp add: log_def)
    obtain ro c2 t2 where rd: "run_down env Down_steps [] (c1, t1) = (ro, (c2, t2))"
      by (metis prod.exhaust)
    from run_down_events[OF Down_steps_infra rd] obtain evs where
      e: "trace t2 = trace t1 @ evs" "interrupts evs = 0" "list_all cleanup_call (calls_of evs)"
      by blast
    obtain d1 c3 t3 where s1: "invoke env Sync (c2, t2) = (d1, (c3, t3))"
      by (metis prod.exhaust)
    obtain d2 c4 t4 where s2: "invoke env Sync (c3, t3) = (d2, (c4, t4))"
      by (metis prod.exhaust)
    note i1 = invoke_facts(1)[OF s1] and i2 = invoke_facts(1)[OF s2]
    have "trace t' = trace t2 @ [Invoke Sync d1] \<or> trace t' = trace t2 @ [Invoke Sync d1, Invoke Sync d2]"
      using assms Some st u rd s1 s2 i1 i2
      by (cases ro) (auto simp: down_def split: if_splits)
    then show ?thesis
    proof
      assume "trace t' = trace t2 @ [Invoke Sync d1]"
      with tr1 e show ?thesis
        by (intro exI[of _ "[DownStart, Invoke uploadToS3 serr] @ evs @ [Invoke Sync d1]"])
           (simp add: interrupts_append calls_of_append cleanup_call_def)
    next
      assume "trace t' = trace t2 @ [Invoke Sync d1, Invoke Sync d2]"
      with tr1 e show ?thesis
        by (intro exI[of _ "[DownStart, Invoke uploadToS3 serr] @ evs @ [Invoke Sync d1, Invoke Sync d2]"])
           (simp add: interrupts_append calls_of_append cleanup_call_def)
    qed
  qed
qed

lemma same_but_created_fields:
  assumes "same_but_created c c'"
  shows "Status c' = Status c" "OnFailureDelete c' = OnFailureDelete c"
    "OnFailureDeleteWaitSeconds c' = OnFailureDeleteWaitSeconds c"
proof -
  from assms have e: "c' = c\<lparr>created := created c'\<rparr>" by (simp add: same_but_created_def)
  show "Status c' = Status c" by (subst e) simp
  show "OnFailureDelete c' = OnFailureDelete c" by (subst e) simp
  show "OnFailureDeleteWaitSeconds c' = OnFailureDeleteWaitSeconds c" by (subst e) simp
qed

lemma Up_unfold:
  assumes body: "Up_body env (c, t) = (r, (c1, t1))"
  shows "\<exists>d serr t3. trace t3 = trace t1 @ [Invoke Sync d, Invoke uploadToS3 serr]
          \<and> handle t3 = handle t1
          \<and> Up env (Some c, t) =
             (case Status c of
                None \<Rightarrow> (Panic, (Some c1, t3))
              | Some st \<Rightarrow>
                 (case r of
                    Ok \<Rightarrow> (Ok, (Some c1, t3))
                  | Panic \<Rightarrow> (Panic, (Some c1, t3))
                  | Err e \<Rightarrow>
                      if \<not> OnFailureDelete c then (Err e, (Some c1, t3))
                      else (case down env (Some c1,
                                    (if 0 < waitDur c then log WaitBeforeCleanUp t3 else t3)) of
                              (Panic, ts5) \<Rightarrow> (Panic, ts5)
                            | (derr, ts5) \<Rightarrow> (Err e, ts5))))"
proof -
  obtain d c2 t2 where i1: "invoke env Sync (c1, t1) = (d, (c2, t2))" by (metis prod.exhaust)
  obtain serr c3 t3 where i2: "invoke env uploadToS3 (c2, t2) = (serr, (c3, t3))"
    by (metis prod.exhaust)
  note f1 = invoke_facts[OF i1] and f2 = invoke_facts[OF i2]
  have c3: "c3 = c1" using f1(3) f2(3) by simp
  have sc: "same_but_created c c1"
    using step_relD(1)[OF Up_body_rel[OF body]] .
  note fl = same_but_created_fields[OF sc]
  have w: "waitDur c1 = waitDur c" by (simp add: waitDur_def fl)
  have "Up env (Some c, t) =
             (case Status c of
                None \<Rightarrow> (Panic, (Some c1, t3))
              | Some st \<Rightarrow>
                 (case r of
                    Ok \<Rightarrow> (Ok, (Some c1, t3))
                  | Panic \<Rightarrow> (Panic, (Some c1, t3))
                  | Err e \<Rightarrow>
                      if \<not> OnFailureDelete c then (Err e, (Some c1, t3))
                      else (case down env (Some c1,
                                    (if 0 < waitDur c then log WaitBeforeCleanUp t3 else t3)) of
                              (Panic, ts5) \<Rightarrow> (Panic, ts5)
                            | (derr, ts5) \<Rightarrow> (Err e, ts5))))"
    unfolding Up_def using body i1 i2 c3 fl w
    by (simp split: option.splits res.splits)
  moreover have "trace t3 = trace t1 @ [Invoke Sync d, Invoke uploadToS3 serr]"
    using f1(1) f2(1) by simp
  moreover have "handle t3 = handle t1" using f1(2) f2(2) by simp
  ultimately show ?thesis by blast
qed

text \<open>What \<^verbatim>\<open>Up\<close> does after its body: the deferred \<^verbatim>\<open>Sync\<close> and upload, and the
  compensating \<open>down\<close> when the body failed, \<^verbatim>\<open>OnFailureDelete\<close> is set and the
  status is there.\<close>

lemma Up_tail:
  assumes body: "Up_body env (c, t) = (r, (c1, t1))"
  shows "\<exists>post. trace (Up_of env c t) = trace t1 @ post \<and> interrupts post = 0
           \<and> list_all cleanup_call (calls_of post)
           \<and> count_list post DownStart
               = (if Status c \<noteq> None \<and> OnFailureDelete c \<and> (\<exists>e. r = Err e) then 1 else 0)"
    and "fst (Up env (Some c, t))
           = (if Status c = None then Panic
              else (case r of
                      Err e \<Rightarrow> if OnFailureDelete c \<and> down_panics c1 (handle t1) then Panic else Err e
                    | Ok \<Rightarrow> Ok | Panic \<Rightarrow> Panic))"
proof -
  from Up_unfold[OF body] obtain d serr t3 where
    t3: "trace t3 = trace t1 @ [Invoke Sync d, Invoke uploadToS3 serr]" "handle t3 = handle t1"
    and up: "Up env (Some c, t) =
             (case Status c of
                None \<Rightarrow> (Panic, (Some c1, t3))
              | Some st \<Rightarrow>
                 (case r of
                    Ok \<Rightarrow> (Ok, (Some c1, t3))
                  | Panic \<Rightarrow> (Panic, (Some c1, t3))
                  | Err e \<Rightarrow>
                      if \<not> OnFailureDelete c then (Err e, (Some c1, t3))
                      else (case down env (Some c1,
                                    (if 0 < waitDur c then log WaitBeforeCleanUp t3 else t3)) of
                              (Panic, ts5) \<Rightarrow> (Panic, ts5)
                            | (derr, ts5) \<Rightarrow> (Err e, ts5))))"
    by blast
  define t4 where "t4 = (if 0 < waitDur c then log WaitBeforeCleanUp t3 else t3)"
  obtain dr co5 t5 where dn: "down env (Some c1, t4) = (dr, (co5, t5))" by (metis prod.exhaust)
  have sc: "same_but_created c c1" using step_relD(1)[OF Up_body_rel[OF body]] .
  have st1: "Status c1 = Status c" using same_but_created_fields(1)[OF sc] .
  have h4: "handle t4 = handle t1" using t3(2) by (simp add: t4_def log_def)
  define comp where "comp \<longleftrightarrow> Status c \<noteq> None \<and> OnFailureDelete c \<and> (\<exists>e. r = Err e)"
  have fin: "Up_of env c t = (if comp then t5 else t3)"
    unfolding Up_of_def up comp_def using dn
    by (auto simp: t4_def split: option.splits res.splits)
  have p3: "interrupts [Invoke Sync d, Invoke uploadToS3 serr] = 0
      \<and> list_all cleanup_call (calls_of [Invoke Sync d, Invoke uploadToS3 serr])
      \<and> count_list [Invoke Sync d, Invoke uploadToS3 serr] DownStart = 0"
    by (simp add: cleanup_call_def)
  have "\<exists>post. trace (Up_of env c t) = trace t1 @ post \<and> interrupts post = 0
           \<and> list_all cleanup_call (calls_of post)
           \<and> count_list post DownStart = (if comp then 1 else 0)"
  proof (cases comp)
    case False
    with fin t3(1) p3 show ?thesis
      by (intro exI[of _ "[Invoke Sync d, Invoke uploadToS3 serr]"]) simp
  next
    case True
    from down_frame[OF dn] obtain evs where
      e5: "trace t5 = trace t4 @ DownStart # evs" "DownStart \<notin> set evs" by blast
    from down_events[OF dn] obtain ev5 where
      q5: "trace t5 = trace t4 @ ev5" "interrupts ev5 = 0" "list_all cleanup_call (calls_of ev5)"
      by blast
    from e5(1) q5(1) have ev5: "ev5 = DownStart # evs" by simp
    have "\<exists>w. trace t4 = trace t3 @ w \<and> DownStart \<notin> set w \<and> interrupts w = 0 \<and> calls_of w = []"
      by (auto simp: t4_def log_def)
    then obtain w where w: "trace t4 = trace t3 @ w" "DownStart \<notin> set w" "interrupts w = 0"
      "calls_of w = []" by blast
    have tr: "trace t5 = trace t1 @ ([Invoke Sync d, Invoke uploadToS3 serr] @ w @ ev5)"
      using q5(1) w(1) t3(1) by simp
    have cnt: "count_list ([Invoke Sync d, Invoke uploadToS3 serr] @ w @ ev5) DownStart = 1"
      using w(2) e5(2) by (simp add: ev5 count_list_0_iff)
    have "interrupts ([Invoke Sync d, Invoke uploadToS3 serr] @ w @ ev5) = 0"
      using w(3) q5(2) by (simp add: interrupts_append)
    moreover have "list_all cleanup_call (calls_of ([Invoke Sync d, Invoke uploadToS3 serr] @ w @ ev5))"
      using w(4) q5(3) by (simp add: calls_of_append cleanup_call_def)
    ultimately show ?thesis using True fin tr cnt
      by (intro exI[of _ "[Invoke Sync d, Invoke uploadToS3 serr] @ w @ ev5"]) simp
  qed
  then show "\<exists>post. trace (Up_of env c t) = trace t1 @ post \<and> interrupts post = 0
           \<and> list_all cleanup_call (calls_of post)
           \<and> count_list post DownStart
               = (if Status c \<noteq> None \<and> OnFailureDelete c \<and> (\<exists>e. r = Err e) then 1 else 0)"
    unfolding comp_def .
  show "fst (Up env (Some c, t))
           = (if Status c = None then Panic
              else (case r of
                      Err e \<Rightarrow> if OnFailureDelete c \<and> down_panics c1 (handle t1) then Panic else Err e
                    | Ok \<Rightarrow> Ok | Panic \<Rightarrow> Panic))"
  proof (cases "Status c")
    case None
    then show ?thesis by (simp add: up)
  next
    case (Some st)
    with st1 have s1: "Status c1 = Some st" by simp
    from down_panic_iff[OF s1, of env t4] dn h4 have pn: "(dr = Panic) = down_panics c1 (handle t1)"
      by simp
    show ?thesis
      unfolding up using Some dn pn
      by (cases r; cases dr) (auto simp: t4_def)
  qed
qed

section \<open>Up: failure and compensation\<close>

lemmas eval_up = Up_def Up_body_def Up_steps_def prerequisites_def catchInterrupt_def
  perform_def createCluster_method_def createSubTesters_def SubTesters_def
  needGPU_def logs_wanted_def waitDur_def rollback_config_def Up_of_def
  eval_down

text \<open>
  C3 (counterexample): a tester resumed from a previous state, without handles, whose
  configuration has the pi jobs enabled and marked as created. The bucket cannot be
  created, \<^verbatim>\<open>Up\<close> fails with that error and \<^verbatim>\<open>OnFailureDelete\<close> is set; the
  compensating \<open>down\<close> calls \<^verbatim>\<open>Delete\<close> on the nil tester of the pi jobs, and what
  reaches the caller of \<^verbatim>\<open>Up\<close> is that panic, not the error of the bucket.
\<close>

theorem C3_counterexample:
  "OnFailureDelete resumed_config
   \<and> fst (Up_body bucket_env (resumed_config, base_tester)) = Err ''no bucket''
   \<and> fst (Up bucket_env (Some resumed_config, base_tester)) = Panic"
  by (simp add: eval_up resumed_config_def bucket_env_def)

text \<open>
  C3 (as the code has it): when the body of \<^verbatim>\<open>Up\<close> fails with error \<open>e\<close> and
  \<^verbatim>\<open>OnFailureDelete\<close> is set, \<open>down\<close> is entered exactly once, and \<^verbatim>\<open>Up\<close> returns
  \<open>e\<close> itself whenever that \<open>down\<close> returns, be it nil or an error; when \<open>down\<close>
  panics on a nil tester (\<open>down_panics\<close>, in the state that the body has left), the
  panic reaches the caller of \<^verbatim>\<open>Up\<close>. (Where the status of the configuration is
  nil, the deferred function of \<^verbatim>\<open>Up\<close> panics before it calls \<open>down\<close>.)
\<close>

theorem C3_Up_returns_original_error:
  assumes "Up_body env (c, t) = (Err e, (c1, t1))" and "OnFailureDelete c"
  shows "fst (Up env (Some c, t))
           = (if Status c = None \<or> down_panics c1 (handle t1) then Panic else Err e)
       \<and> count_list (emitted t (Up_of env c t)) DownStart = (if Status c = None then 0 else 1)"
proof -
  from Up_tail(1)[OF assms(1)] assms(2) obtain post where
    p: "trace (Up_of env c t) = trace t1 @ post"
       "count_list post DownStart = (if Status c = None then 0 else 1)"
    by auto
  note q = step_relD[OF Up_body_rel[OF assms(1)]]
  have "trace (Up_of env c t) = trace t @ (emitted t t1 @ post)"
    using p(1) q(2) by simp
  then have "emitted t (Up_of env c t) = emitted t t1 @ post"
    by (rule emitted_append)
  then have "count_list (emitted t (Up_of env c t)) DownStart = (if Status c = None then 0 else 1)"
    using q(3) p(2) by (simp add: count_list_0_iff)
  with Up_tail(2)[OF assms(1)] assms(2) show ?thesis by simp
qed

text \<open>C3 (witness): the bucket cannot be created, and in the clean-up the key pair cannot
  be deleted; \<^verbatim>\<open>Up\<close> returns the error of the bucket.\<close>

theorem C3_Up_returns_original_error_witness:
  "OnFailureDelete rollback_config
   \<and> fst (Up_body (failing_with [(createS3, ''no bucket''), (deleteKeyPair, ''no key'')])
            (rollback_config, base_tester)) = Err ''no bucket''
   \<and> fst (Up (failing_with [(createS3, ''no bucket''), (deleteKeyPair, ''no key'')])
            (Some rollback_config, base_tester)) = Err ''no bucket''
   \<and> count_list (emitted base_tester
         (Up_of (failing_with [(createS3, ''no bucket''), (deleteKeyPair, ''no key'')])
            rollback_config base_tester)) DownStart = 1"
proof -
  let ?env = "failing_with [(createS3, ''no bucket''), (deleteKeyPair, ''no key'')]"
  have b: "fst (Up_body ?env (rollback_config, base_tester)) = Err ''no bucket''"
    by (simp add: eval_up)
  have h: "Up_body ?env (rollback_config, base_tester)
     = (Err ''no bucket'', (fst (snd (Up_body ?env (rollback_config, base_tester))),
                            snd (snd (Up_body ?env (rollback_config, base_tester)))))"
    using b by (simp add: prod_eq_iff)
  have o: "OnFailureDelete rollback_config"
    by (simp add: rollback_config_def base_config_def)
  have s: "Status rollback_config = Some \<lparr>status_Up = True\<rparr>"
    by (simp add: rollback_config_def base_config_def)
  have np: "\<not> down_panics (fst (snd (Up_body ?env (rollback_config, base_tester))))
                 (handle (snd (snd (Up_body ?env (rollback_config, base_tester)))))"
    by (simp add: eval_up down_panics_def)
  from C3_Up_returns_original_error[OF h o] s np b o show ?thesis by simp
qed

section \<open>Up: the prerequisites\<close>

lemma Up_steps_prereq: "Up_steps = map Step prerequisites @ drop 6 Up_steps"
  by (simp add: Up_steps_def prerequisites_def)

lemma prerequisites_provisioning: "list_all provisioning prerequisites"
  by (simp add: prerequisites_def)

lemma later_not_prerequisite:
  "list_ex (\<lambda>p. phase_call p k) (drop 6 Up_steps) \<Longrightarrow> k \<notin> set prerequisites"
  by (auto simp: Up_steps_def prerequisites_def)

lemma cleanup_not_provisioning: "cleanup_call k \<Longrightarrow> \<not> provisioning k"
  by (cases k) (auto simp: cleanup_call_def)

lemma filter_cleanup: "list_all cleanup_call ks \<Longrightarrow> filter provisioning ks = []"
  by (auto simp: list_all_iff filter_empty_conv cleanup_not_provisioning)

lemma Up_body_unfold:
  "Up_body env s =
     (case run_steps (map (up_step env) (map Step prerequisites)) s of
        (Ok, s6) \<Rightarrow>
          (case run_steps (map (up_step env) (drop 6 Up_steps)) s6 of
             (Ok, s7) \<Rightarrow> (case invoke env Sync s7 of (r, s8) \<Rightarrow> (res_of r, s8))
           | (Err e, s7) \<Rightarrow> (Err e, s7)
           | (Panic, s7) \<Rightarrow> (Panic, s7))
      | (Err e, s6) \<Rightarrow> (Err e, s6)
      | (Panic, s6) \<Rightarrow> (Panic, s6))"
proof -
  have "map (up_step env) Up_steps
      = map (up_step env) (map Step prerequisites) @ map (up_step env) (drop 6 Up_steps)"
    by (subst Up_steps_prereq) (simp only: map_append)
  then show ?thesis
    by (simp add: Up_body_def run_steps_append split: prod.splits res.splits)
qed

text \<open>In every run of \<^verbatim>\<open>Up\<close>, the provisioning calls begin with prerequisites in
  their order, and what follows them has no prerequisite.\<close>

lemma Up_prerequisites_first:
  "\<exists>n rest. filter provisioning (calls_of (emitted t (Up_of env c t))) = take n prerequisites @ rest
      \<and> 0 < n \<and> (n < length prerequisites \<longrightarrow> rest = []) \<and> set rest \<inter> set prerequisites = {}"
proof -
  obtain r6 c6 t6 where pre: "run_steps (map (up_step env) (map Step prerequisites)) (c, t) = (r6, (c6, t6))"
    by (metis prod.exhaust)
  from steps_calls[OF prerequisites_provisioning pre] obtain e6 n where
    e6: "trace t6 = trace t @ e6" "filter provisioning (calls_of e6) = take n prerequisites"
        "n \<le> length prerequisites" "r6 = Ok \<longrightarrow> n = length prerequisites" "0 < n"
    by (auto simp: prerequisites_def)
  obtain r c1 t1 where body: "Up_body env (c, t) = (r, (c1, t1))" by (metis prod.exhaust)
  from Up_tail(1)[OF body] obtain post where
    post: "trace (Up_of env c t) = trace t1 @ post" "list_all cleanup_call (calls_of post)"
    by blast
  show ?thesis
  proof (cases "r6 = Ok")
    case False
    with body pre have "t1 = t6" by (cases r6) (simp_all add: Up_body_unfold)
    with post(1) e6(1) have "trace (Up_of env c t) = trace t @ (e6 @ post)" by simp
    then have "emitted t (Up_of env c t) = e6 @ post" by (rule emitted_append)
    then have "filter provisioning (calls_of (emitted t (Up_of env c t))) = take n prerequisites @ []"
      using e6(2) filter_cleanup[OF post(2)] by (simp add: calls_of_append)
    with e6(5) show ?thesis
      by (intro exI[of _ n] exI[of _ "[]"]) simp
  next
    case True
    obtain r7 c7 t7 where rest: "run_steps (map (up_step env) (drop 6 Up_steps)) (c6, t6) = (r7, (c7, t7))"
      by (metis prod.exhaust)
    note q = step_relD[OF up_steps_rel[OF rest]]
    have "\<exists>sy. trace t1 = trace t7 @ sy \<and> list_all cleanup_call (calls_of sy)"
    proof (cases "r7 = Ok")
      case False
      with body pre True rest have "t1 = t7" by (cases r7) (simp_all add: Up_body_unfold)
      then show ?thesis by simp
    next
      case ok: True
      obtain rs c8 t8 where i: "invoke env Sync (c7, t7) = (rs, (c8, t8))" by (metis prod.exhaust)
      with body pre True rest ok have "t1 = t8" by (simp add: Up_body_unfold)
      with invoke_facts(1)[OF i] show ?thesis by (simp add: cleanup_call_def)
    qed
    then obtain sy where sy: "trace t1 = trace t7 @ sy" "list_all cleanup_call (calls_of sy)"
      by blast
    have "trace (Up_of env c t) = trace t @ (e6 @ emitted t6 t7 @ sy @ post)"
      using post(1) sy(1) q(2) e6(1) by simp
    then have em: "emitted t (Up_of env c t) = e6 @ emitted t6 t7 @ sy @ post"
      by (rule emitted_append)
    define rest where "rest = filter provisioning (calls_of (emitted t6 t7))"
    have n: "n = length prerequisites" using e6(4) True by simp
    have "filter provisioning (calls_of (emitted t (Up_of env c t))) = take n prerequisites @ rest"
      using e6(2) filter_cleanup[OF post(2)] filter_cleanup[OF sy(2)]
      by (simp add: em calls_of_append rest_def)
    moreover have "set rest \<inter> set prerequisites = {}"
      using q(6) later_not_prerequisite by (auto simp: rest_def list_all_iff)
    ultimately show ?thesis using n e6(5)
      by (intro exI[of _ n] exI[of _ rest]) simp
  qed
qed

text \<open>
  C4 (counterexample): a tester resumed from a previous state, without handles, whose
  configuration has Wordpress enabled and marked as created, and
  \<^verbatim>\<open>OnFailureDelete\<close> set. The network cannot be created; the compensating \<open>down\<close>
  calls \<^verbatim>\<open>Delete\<close> on the nil tester of Wordpress, and \<^verbatim>\<open>Up\<close> ends in that panic
  instead of returning the error of the network.
\<close>

theorem C4_counterexample:
  "fst (Up_body vpc_env (wordpress_config, base_tester)) = Err ''no vpc''
   \<and> fst (Up vpc_env (Some wordpress_config, base_tester)) = Panic
   \<and> calls_of (trace (Up_of vpc_env wordpress_config base_tester))
       = [createS3, createEncryption, createKeyPair, createClusterRole, createVPC,
          Sync, uploadToS3, uploadToS3, deleteKeyPair, Sync]"
  by (simp add: eval_up wordpress_config_def vpc_env_def)

text \<open>
  C4 (as the code has it): in every run of \<^verbatim>\<open>Up\<close> the provisioning calls begin with
  prerequisites in the order bucket, encryption key, key pair, cluster role, network,
  cluster, and no prerequisite is called after another kind of step. When the first \<open>k\<close>
  of them return nil and the next one returns an error, the body of \<^verbatim>\<open>Up\<close> returns
  that error at once, and in the whole run, clean-up included, the provisioning calls
  are those \<open>k + 1\<close> steps, in order, and nothing after them. \<^verbatim>\<open>Up\<close> then returns the
  error to its caller, unless \<^verbatim>\<open>OnFailureDelete\<close> is set and the compensating
  \<open>down\<close> panics on a nil tester, or the status of the configuration is nil: then the
  caller gets the panic.
\<close>

theorem C4_prerequisites_in_order_and_fatal:
  "prerequisites
     = [createS3, createEncryption, createKeyPair, createClusterRole, createVPC, createCluster]
   \<and> (\<exists>n rest. filter provisioning (calls_of (emitted t (Up_of env c t))) = take n prerequisites @ rest
         \<and> 0 < n \<and> (n < length prerequisites \<longrightarrow> rest = []) \<and> set rest \<inter> set prerequisites = {})
   \<and> (k < length prerequisites
       \<and> run_steps (map (up_step env) (map Step (take k prerequisites))) (c, t) = (Ok, sk)
       \<and> catchInterrupt env (prerequisites ! k) sk = (Err e, (c', t'))
       \<longrightarrow> Up_body env (c, t) = (Err e, (c', t'))
           \<and> filter provisioning (calls_of (emitted t (Up_of env c t))) = take (Suc k) prerequisites
           \<and> fst (Up env (Some c, t))
               = (if Status c = None \<or> (OnFailureDelete c \<and> down_panics c' (handle t'))
                  then Panic else Err e))"
proof -
  have B: "k < length prerequisites
       \<and> run_steps (map (up_step env) (map Step (take k prerequisites))) (c, t) = (Ok, sk)
       \<and> catchInterrupt env (prerequisites ! k) sk = (Err e, (c', t'))
       \<longrightarrow> Up_body env (c, t) = (Err e, (c', t'))
           \<and> filter provisioning (calls_of (emitted t (Up_of env c t))) = take (Suc k) prerequisites
           \<and> fst (Up env (Some c, t))
               = (if Status c = None \<or> (OnFailureDelete c \<and> down_panics c' (handle t'))
                  then Panic else Err e)"
  proof (intro impI, elim conjE)
    assume k: "k < length prerequisites"
      and first: "run_steps (map (up_step env) (map Step (take k prerequisites))) (c, t) = (Ok, sk)"
      and fails: "catchInterrupt env (prerequisites ! k) sk = (Err e, (c', t'))"
    obtain ck tk where sk: "sk = (ck, tk)" by (metis prod.exhaust)
    have split: "Up_steps = map Step (take k prerequisites)
                 @ (Step (prerequisites ! k) # (map Step (drop (Suc k) prerequisites) @ drop 6 Up_steps))"
      using id_take_nth_drop[OF k] Up_steps_prereq
      by (metis append_Cons append_assoc list.simps(9) map_append)
    have run: "run_steps (map (up_step env) Up_steps) (c, t) = (Err e, (c', t'))"
      by (subst split) (simp add: run_steps_append first fails del: map_map)
    then have body: "Up_body env (c, t) = (Err e, (c', t'))"
      by (simp add: Up_body_def)
    have pk: "list_all provisioning (take k prerequisites)"
      using prerequisites_provisioning by (auto simp: list_all_iff dest: in_set_takeD)
    from steps_calls[OF pk first[unfolded sk]] k obtain e1 where
      e1: "trace tk = trace t @ e1" "filter provisioning (calls_of e1) = take k prerequisites"
      by auto
    have pn: "provisioning (prerequisites ! k)"
      using prerequisites_provisioning k by (simp add: list_all_length)
    from catchInterrupt_calls[OF fails[unfolded sk]] pn obtain e2 where
      e2: "trace t' = trace tk @ e2" "filter provisioning (calls_of e2) = [prerequisites ! k]"
      by auto
    from Up_tail(1)[OF body] obtain post where
      post: "trace (Up_of env c t) = trace t' @ post" "list_all cleanup_call (calls_of post)"
      by blast
    have "trace (Up_of env c t) = trace t @ (e1 @ e2 @ post)"
      using post(1) e1(1) e2(1) by simp
    then have "emitted t (Up_of env c t) = e1 @ e2 @ post" by (rule emitted_append)
    then have calls: "filter provisioning (calls_of (emitted t (Up_of env c t))) = take (Suc k) prerequisites"
      using e1(2) e2(2) filter_cleanup[OF post(2)]
      by (simp add: calls_of_append take_Suc_conv_app_nth[OF k])
    from Up_tail(2)[OF body] have "fst (Up env (Some c, t))
               = (if Status c = None \<or> (OnFailureDelete c \<and> down_panics c' (handle t'))
                  then Panic else Err e)"
      by simp
    with body calls show "Up_body env (c, t) = (Err e, (c', t'))
           \<and> filter provisioning (calls_of (emitted t (Up_of env c t))) = take (Suc k) prerequisites
           \<and> fst (Up env (Some c, t))
               = (if Status c = None \<or> (OnFailureDelete c \<and> down_panics c' (handle t'))
                  then Panic else Err e)"
      by blast
  qed
  have A: "prerequisites
     = [createS3, createEncryption, createKeyPair, createClusterRole, createVPC, createCluster]"
    by (simp add: prerequisites_def)
  from A Up_prerequisites_first[of t env c] B show ?thesis
    by (intro conjI)
qed

text \<open>C4 (witness): with \<^verbatim>\<open>OnFailureDelete\<close> set, the bucket and the encryption
  key are created, the key pair is not; \<^verbatim>\<open>Up\<close> cleans up and returns the error of
  the key pair.\<close>

theorem C4_prerequisites_in_order_and_fatal_witness:
  "(2::nat) < length prerequisites
   \<and> run_steps (map (up_step key_pair_env) (map Step (take 2 prerequisites)))
        (rollback_config, base_tester) = (Ok, after_two)
   \<and> catchInterrupt key_pair_env (prerequisites ! 2) after_two = (Err ''no key pair'', at_third)
   \<and> Up_body key_pair_env (rollback_config, base_tester) = (Err ''no key pair'', at_third)
   \<and> filter provisioning (calls_of (emitted base_tester (Up_of key_pair_env rollback_config base_tester)))
       = [createS3, createEncryption, createKeyPair]
   \<and> OnFailureDelete rollback_config
   \<and> fst (Up key_pair_env (Some rollback_config, base_tester)) = Err ''no key pair''"
proof -
  have k: "(2::nat) < length prerequisites" by (simp add: prerequisites_def)
  have "fst (run_steps (map (up_step key_pair_env) (map Step (take 2 prerequisites)))
        (rollback_config, base_tester)) = Ok"
    by (simp add: eval_up key_pair_env_def)
  then have r: "run_steps (map (up_step key_pair_env) (map Step (take 2 prerequisites)))
        (rollback_config, base_tester) = (Ok, after_two)"
    by (simp add: after_two_def prod_eq_iff)
  have "fst (catchInterrupt key_pair_env (prerequisites ! 2) after_two) = Err ''no key pair''"
    by (simp add: eval_up key_pair_env_def after_two_def)
  then have ci: "catchInterrupt key_pair_env (prerequisites ! 2) after_two
      = (Err ''no key pair'', (fst at_third, snd at_third))"
    by (simp add: at_third_def prod_eq_iff)
  have s: "Status rollback_config \<noteq> None" "OnFailureDelete rollback_config"
    by (simp_all add: rollback_config_def base_config_def)
  have np: "\<not> down_panics (fst at_third) (handle (snd at_third))"
    by (simp add: at_third_def after_two_def eval_up key_pair_env_def down_panics_def)
  have p: "take (Suc 2) prerequisites = [createS3, createEncryption, createKeyPair]"
    by (simp add: prerequisites_def)
  from C4_prerequisites_in_order_and_fatal[where k = 2 and env = key_pair_env
         and c = rollback_config and t = base_tester and sk = after_two
         and e = "''no key pair''" and c' = "fst at_third" and t' = "snd at_third"]
       k r ci s np p
  show ?thesis by simp
qed

section \<open>An enabled add-on without tester\<close>

lemma Up_steps_no_direct_create: "\<forall>p\<in>set Up_steps. \<forall>b. p \<noteq> Step (Create b)"
  by (simp add: Up_steps_def prerequisites_def)

lemma phase_call_Create:
  assumes "p \<in> set Up_steps" "phase_call p (Create a)"
  shows "p = CreateAddOn a"
proof (cases p)
  case (Step j)
  with assms(2) have "j = Create a" by auto
  with Step assms(1) Up_steps_no_direct_create show ?thesis by blast
qed (use assms(2) in auto)

lemma CreateAddOn_in_Up_steps: "CreateAddOn a \<in> set Up_steps"
  by (cases a) (simp_all add: Up_steps_def)

lemma Up_steps_at_create:
  "\<exists>rest. Up_steps = before_create a @ CreateAddOn a # rest"
proof -
  let ?P = "\<lambda>p. p \<noteq> CreateAddOn a"
  have ne: "dropWhile ?P Up_steps \<noteq> []"
    using CreateAddOn_in_Up_steps[of a] by auto
  then have "hd (dropWhile ?P Up_steps) = CreateAddOn a"
    using hd_dropWhile[of ?P Up_steps] by simp
  with ne obtain rest where "dropWhile ?P Up_steps = CreateAddOn a # rest"
    by (cases "dropWhile ?P Up_steps") auto
  with takeWhile_dropWhile_id[of ?P Up_steps] show ?thesis
    by (metis before_create_def)
qed

lemma before_create_no_Create:
  "list_ex (\<lambda>p. phase_call p k) (before_create a) \<Longrightarrow> k \<noteq> Create a"
proof
  assume ex: "list_ex (\<lambda>p. phase_call p k) (before_create a)" and k: "k = Create a"
  then obtain p where p: "p \<in> set (before_create a)" "phase_call p (Create a)"
    by (auto simp: list_ex_iff)
  from p(1) have "p \<in> set Up_steps" "p \<noteq> CreateAddOn a"
    unfolding before_create_def by (auto dest: set_takeWhileD)
  with phase_call_Create[OF _ p(2)] show False by blast
qed

lemma down_step_node_group:
  assumes "down_step env p (c, t) = (r, (c', t'))"
  shows "\<exists>evs. trace t' = trace t @ evs
           \<and> (\<forall>g r0. Invoke (Delete g) r0 \<in> set evs \<longrightarrow>
                 (\<exists>h w. p = DeleteAddOn h g w) \<or> p = Infra (Delete g)
                 \<or> (enabled c g \<and> handle t g))"
proof (cases p)
  case (Infra k)
  obtain r0 c0 t0 where i: "invoke env k (c, t) = (r0, (c0, t0))" by (metis prod.exhaust)
  from invoke_facts(1)[OF i] assms Infra i show ?thesis by auto
next
  case (DeleteAddOn g b w)
  obtain r0 c0 t0 where i: "invoke env (Delete b) (c, t) = (r0, (c0, t0))" by (metis prod.exhaust)
  from invoke_facts(1)[OF i] assms DeleteAddOn i show ?thesis
    by (cases r0; cases w) (auto simp: sleep_def log_def split: if_splits)
next
  case LBWait
  with assms show ?thesis by (auto simp: sleep_def log_def split: if_splits)
next
  case (DeleteNodeGroup g)
  obtain r0 c0 t0 where i: "invoke env (Delete g) (c, t) = (r0, (c0, t0))" by (metis prod.exhaust)
  from invoke_facts(1)[OF i] assms DeleteNodeGroup i show ?thesis
    by (auto simp: sleep_def log_def split: if_splits)
next
  case VPCWait
  with assms show ?thesis by (auto simp: sleep_def log_def split: if_splits)
qed

lemma run_down_node_group:
  "run_down env ps errs (c, t) = (ro, (c', t')) \<Longrightarrow>
     \<exists>evs. trace t' = trace t @ evs
        \<and> (\<forall>g r0. Invoke (Delete g) r0 \<in> set evs \<longrightarrow>
              (\<exists>h w. DeleteAddOn h g w \<in> set ps) \<or> Infra (Delete g) \<in> set ps
              \<or> (enabled c g \<and> handle t g))"
proof (induction ps arbitrary: errs c t)
  case Nil
  then show ?case by simp
next
  case (Cons p ps)
  obtain r1 c1 t1 where st: "down_step env p (c, t) = (r1, (c1, t1))" by (metis prod.exhaust)
  from down_step_node_group[OF st] obtain e1 where
    e1: "trace t1 = trace t @ e1"
        "\<forall>g r0. Invoke (Delete g) r0 \<in> set e1 \<longrightarrow>
                 (\<exists>h w. p = DeleteAddOn h g w) \<or> p = Infra (Delete g)
                 \<or> (enabled c g \<and> handle t g)"
    by blast
  have en1: "enabled c1 = enabled c"
    using down_step_frame(1)[OF st] by (rule same_but_created_enabled)
  have h1: "handle t1 = handle t" using down_step_frame(2)[OF st] .
  show ?case
  proof (cases "r1 = Panic")
    case True
    with Cons.prems st have t': "t' = t1" by auto
    have "\<forall>g r0. Invoke (Delete g) r0 \<in> set e1 \<longrightarrow>
              (\<exists>h w. DeleteAddOn h g w \<in> set (p # ps)) \<or> Infra (Delete g) \<in> set (p # ps)
              \<or> (enabled c g \<and> handle t g)"
      using e1(2) by (metis list.set_intros(1))
    with e1(1) t' show ?thesis by blast
  next
    case False
    define errs1 where "errs1 = (case r1 of Err e \<Rightarrow> errs @ [e] | _ \<Rightarrow> errs)"
    from Cons.prems st False have run: "run_down env ps errs1 (c1, t1) = (ro, (c', t'))"
      by (cases r1) (auto simp: errs1_def)
    from Cons.IH[OF run] obtain e2 where
      e2: "trace t' = trace t1 @ e2"
          "\<forall>g r0. Invoke (Delete g) r0 \<in> set e2 \<longrightarrow>
              (\<exists>h w. DeleteAddOn h g w \<in> set ps) \<or> Infra (Delete g) \<in> set ps
              \<or> (enabled c1 g \<and> handle t1 g)"
      by blast
    have tr: "trace t' = trace t @ (e1 @ e2)" using e1(1) e2(1) by simp
    have "\<forall>g r0. Invoke (Delete g) r0 \<in> set (e1 @ e2) \<longrightarrow>
              (\<exists>h w. DeleteAddOn h g w \<in> set (p # ps)) \<or> Infra (Delete g) \<in> set (p # ps)
              \<or> (enabled c g \<and> handle t g)"
    proof (intro allI impI)
      fix g r0 assume "Invoke (Delete g) r0 \<in> set (e1 @ e2)"
      then consider "Invoke (Delete g) r0 \<in> set e1" | "Invoke (Delete g) r0 \<in> set e2" by auto
      then show "(\<exists>h w. DeleteAddOn h g w \<in> set (p # ps)) \<or> Infra (Delete g) \<in> set (p # ps)
              \<or> (enabled c g \<and> handle t g)"
      proof cases
        case 1
        with e1(2) show ?thesis by (metis list.set_intros(1))
      next
        case 2
        with e2(2) en1 h1 show ?thesis by (metis list.set_intros(2))
      qed
    qed
    with tr show ?thesis by blast
  qed
qed

lemma node_group_rows:
  assumes "g \<in> set node_group_addons"
  shows "DeleteAddOn h g w \<notin> set Down_steps" "Infra (Delete g) \<notin> set Down_steps"
  using assms by (auto simp: node_group_addons_def Down_steps_def)

lemma down_skips_node_group:
  assumes "g \<in> set node_group_addons" "\<not> handle t g"
  shows "Delete g \<notin> set (calls_of (emitted t (down_of env c t)))"
proof (cases "Status c")
  case None
  then show ?thesis by (simp add: down_of_def down_def log_def emitted_def)
next
  case (Some st)
  obtain serr c1 t1 where u: "invoke env uploadToS3 (c, log DownStart t) = (serr, (c1, t1))"
    by (metis prod.exhaust)
  from invoke_facts[OF u] have tr1: "trace t1 = trace t @ [DownStart, Invoke uploadToS3 serr]"
    and h1: "handle t1 = handle t"
    by (simp_all add: log_def)
  obtain ro c2 t2 where rd: "run_down env Down_steps [] (c1, t1) = (ro, (c2, t2))"
    by (metis prod.exhaust)
  from run_down_node_group[OF rd] obtain evs where
    e0: "trace t2 = trace t1 @ evs"
        "\<forall>g r0. Invoke (Delete g) r0 \<in> set evs \<longrightarrow>
              (\<exists>h w. DeleteAddOn h g w \<in> set Down_steps) \<or> Infra (Delete g) \<in> set Down_steps
              \<or> (enabled c1 g \<and> handle t1 g)"
    by blast
  have "\<forall>r0. Invoke (Delete g) r0 \<notin> set evs"
  proof (intro allI notI)
    fix r0 assume "Invoke (Delete g) r0 \<in> set evs"
    with e0(2) have "(\<exists>h w. DeleteAddOn h g w \<in> set Down_steps) \<or> Infra (Delete g) \<in> set Down_steps
              \<or> (enabled c1 g \<and> handle t1 g)" by blast
    with node_group_rows[OF assms(1)] have "handle t1 g" by blast
    with h1 assms(2) show False by simp
  qed
  with e0(1) have e: "trace t2 = trace t1 @ evs" "\<forall>r0. Invoke (Delete g) r0 \<notin> set evs"
    by simp_all
  obtain d1 c3 t3 where s1: "invoke env Sync (c2, t2) = (d1, (c3, t3))"
    by (metis prod.exhaust)
  obtain d2 c4 t4 where s2: "invoke env Sync (c3, t3) = (d2, (c4, t4))"
    by (metis prod.exhaust)
  note i1 = invoke_facts(1)[OF s1] and i2 = invoke_facts(1)[OF s2]
  have "trace (down_of env c t) = trace t2 @ [Invoke Sync d1]
      \<or> trace (down_of env c t) = trace t2 @ [Invoke Sync d1, Invoke Sync d2]"
    using Some u rd s1 s2 i1 i2
    by (cases ro) (auto simp: down_of_def down_def split: if_splits)
  then have "\<exists>sy. trace (down_of env c t) = trace t @ ([DownStart, Invoke uploadToS3 serr] @ evs @ sy)
      \<and> calls_of sy \<in> {[Sync], [Sync, Sync]}"
    using tr1 e(1) by auto
  then obtain sy where
    sy: "trace (down_of env c t) = trace t @ ([DownStart, Invoke uploadToS3 serr] @ evs @ sy)"
      "calls_of sy \<in> {[Sync], [Sync, Sync]}"
    by blast
  from sy(1) have "emitted t (down_of env c t) = [DownStart, Invoke uploadToS3 serr] @ evs @ sy"
    by (rule emitted_append)
  moreover have "Delete g \<notin> set (calls_of sy)" using sy(2) by auto
  moreover have "Delete g \<notin> set (calls_of evs)" using e(2) by (simp add: calls_of_Invoke)
  ultimately show ?thesis
    by (simp add: calls_of_append)
qed

lemma down_ok:
  assumes "fst (down env (Some c, t)) \<noteq> Panic" "errors_of (emitted t (down_of env c t)) = []"
  shows "fst (down env (Some c, t)) = Ok"
proof -
  from down_returns[OF down_split assms(1)] obtain serr evs syncs where
    tr: "trace (down_of env c t) = trace t @ DownStart # Invoke uploadToS3 serr # evs @ syncs"
    and rs: "if errors_of evs = []
               then (\<exists>rs d. syncs = [Invoke Sync rs, Invoke Sync d] \<and> fst (down env (Some c, t)) = res_of rs)
               else fst (down env (Some c, t)) = Err (Join (errors_of evs) '', '') \<and> (\<exists>d. syncs = [Invoke Sync d])"
    by blast
  from tr have em: "emitted t (down_of env c t) = DownStart # Invoke uploadToS3 serr # evs @ syncs"
    by (rule emitted_append)
  from assms(2) have "errors_of (evs @ syncs) = []"
    by (cases serr) (simp_all add: em)
  then have e1: "errors_of evs = []" and e2: "errors_of syncs = []"
    by (simp_all add: errors_of_append)
  from rs e1 obtain rs' d where s: "syncs = [Invoke Sync rs', Invoke Sync d]"
    "fst (down env (Some c, t)) = res_of rs'"
    by auto
  from e2 s(1) have "rs' = None" by (cases rs') simp_all
  with s(2) show ?thesis by simp
qed

text \<open>
  The usual run on a new cluster: the tester has no handles yet, the node groups are
  enabled, and \<^verbatim>\<open>createCluster\<close> builds their tester; \<^verbatim>\<open>Up\<close> creates the node
  group and succeeds.
\<close>

lemma Up_new_cluster_with_node_groups:
  "\<not> handle base_tester NodeGroups
   \<and> fst (Up quiet_env (Some ng_config, base_tester)) = Ok
   \<and> handle (Up_of quiet_env ng_config base_tester) NodeGroups
   \<and> filter provisioning (calls_of (trace (Up_of quiet_env ng_config base_tester)))
       = [createS3, createEncryption, createKeyPair, createClusterRole, createVPC,
          createCluster, checkHealth, Create NodeGroups, checkHealth, checkHealth]"
  by (simp add: eval_up ng_config_def)

text \<open>
  C7 (counterexample): the managed node groups are enabled and their tester is nil;
  \<open>down\<close> skips them without a word and returns nil. And in \<^verbatim>\<open>Up\<close>, with the CSI
  EBS add-on enabled and marked as created in a configuration loaded from disk,
  \<^verbatim>\<open>OnFailureDelete\<close> set and a constructor that returns no tester: the body ends
  with the internal-consistency error, the compensating \<open>down\<close> calls \<^verbatim>\<open>Delete\<close> on
  the nil tester, and the caller of \<^verbatim>\<open>Up\<close> gets a panic.
\<close>

theorem C7_counterexample:
  "enabled mng_config ManagedNodeGroups \<and> \<not> handle base_tester ManagedNodeGroups
   \<and> fst (down quiet_env (Some mng_config, base_tester)) = Ok
   \<and> calls_of (trace (down_of quiet_env mng_config base_tester))
       = [uploadToS3, deleteKeyPair, deleteCluster, deleteEncryption, deleteClusterRole,
          deleteVPC, deleteS3, Sync, Sync]
   \<and> fst (Up_body (no_tester_env CSIEBS) (csi_config, base_tester))
       = Err ''ts.csiEBSTester == nil when AddOnCSIEBS.Enable == true''
   \<and> fst (Up (no_tester_env CSIEBS) (Some csi_config, base_tester)) = Panic"
  by (simp add: eval_up mng_config_def csi_config_def no_tester_env_def)

text \<open>
  C7 (as the code has it): when \<^verbatim>\<open>Up\<close> reaches the block of an add-on that is
  enabled while its tester is nil, the body returns the internal-consistency error of
  that add-on there and runs nothing after it, \<^verbatim>\<open>Create\<close> of the add-on is called
  nowhere in the run, and \<^verbatim>\<open>Up\<close> returns that error to its caller, unless
  \<^verbatim>\<open>OnFailureDelete\<close> is set and the compensating \<open>down\<close> panics on a nil tester,
  or the status of the configuration is nil: then the caller gets the panic. \<open>down\<close>
  has no such check: a node-group add-on that is enabled while its tester is nil is
  skipped, its \<^verbatim>\<open>Delete\<close> is not called, and \<open>down\<close> reports no error for it (it
  returns nil when it does not panic and no call fails).
\<close>

theorem C7_Up_enabled_without_tester_is_fatal:
  "(run_steps (map (up_step env) (before_create a)) (c, t) = (Ok, (c1, t1))
      \<and> enabled c a \<and> \<not> handle t1 a
     \<longrightarrow> Up_body env (c, t) = (Err (nil_tester_error a), (c1, t1))
         \<and> Create a \<notin> set (calls_of (emitted t (Up_of env c t)))
         \<and> fst (Up env (Some c, t))
             = (if Status c = None \<or> (OnFailureDelete c \<and> down_panics c1 (handle t1))
                then Panic else Err (nil_tester_error a)))
   \<and> (g \<in> set node_group_addons \<and> enabled c2 g \<and> \<not> handle t2 g
     \<longrightarrow> Delete g \<notin> set (calls_of (emitted t2 (down_of env2 c2 t2)))
         \<and> (fst (down env2 (Some c2, t2)) \<noteq> Panic
               \<and> errors_of (emitted t2 (down_of env2 c2 t2)) = []
              \<longrightarrow> fst (down env2 (Some c2, t2)) = Ok))"
proof -
  have A: "run_steps (map (up_step env) (before_create a)) (c, t) = (Ok, (c1, t1))
      \<and> enabled c a \<and> \<not> handle t1 a
     \<longrightarrow> Up_body env (c, t) = (Err (nil_tester_error a), (c1, t1))
         \<and> Create a \<notin> set (calls_of (emitted t (Up_of env c t)))
         \<and> fst (Up env (Some c, t))
             = (if Status c = None \<or> (OnFailureDelete c \<and> down_panics c1 (handle t1))
                then Panic else Err (nil_tester_error a))"
  proof (intro impI, elim conjE)
    assume pre: "run_steps (map (up_step env) (before_create a)) (c, t) = (Ok, (c1, t1))"
      and en: "enabled c a" and nh: "\<not> handle t1 a"
    note q = step_relD[OF up_steps_rel[OF pre]]
    have en1: "enabled c1 a" using same_but_created_enabled[OF q(1)] en by simp
    have at: "up_step env (CreateAddOn a) (c1, t1) = (Err (nil_tester_error a), (c1, t1))"
      using en1 nh by simp
    obtain rest where sp: "Up_steps = before_create a @ CreateAddOn a # rest"
      using Up_steps_at_create by blast
    have all: "run_steps (map (up_step env) Up_steps) (c, t) = (Err (nil_tester_error a), (c1, t1))"
      by (subst sp) (simp add: run_steps_append pre at del: up_step.simps)
    then have body: "Up_body env (c, t) = (Err (nil_tester_error a), (c1, t1))"
      by (simp add: Up_body_def)
    from Up_tail(1)[OF body] obtain post where
      post: "trace (Up_of env c t) = trace t1 @ post" "list_all cleanup_call (calls_of post)"
      by blast
    have "trace (Up_of env c t) = trace t @ (emitted t t1 @ post)"
      using post(1) q(2) by simp
    then have em: "emitted t (Up_of env c t) = emitted t t1 @ post" by (rule emitted_append)
    have "Create a \<notin> set (calls_of (emitted t t1))"
      using q(6) before_create_no_Create[of _ a] by (auto simp: list_all_iff)
    moreover have "Create a \<notin> set (calls_of post)"
      using post(2) by (auto simp: list_all_iff cleanup_call_def)
    ultimately have nc: "Create a \<notin> set (calls_of (emitted t (Up_of env c t)))"
      by (simp add: em calls_of_append)
    from Up_tail(2)[OF body] have "fst (Up env (Some c, t))
             = (if Status c = None \<or> (OnFailureDelete c \<and> down_panics c1 (handle t1))
                then Panic else Err (nil_tester_error a))"
      by simp
    with body nc show "Up_body env (c, t) = (Err (nil_tester_error a), (c1, t1))
         \<and> Create a \<notin> set (calls_of (emitted t (Up_of env c t)))
         \<and> fst (Up env (Some c, t))
             = (if Status c = None \<or> (OnFailureDelete c \<and> down_panics c1 (handle t1))
                then Panic else Err (nil_tester_error a))"
      by blast
  qed
  have B: "g \<in> set node_group_addons \<and> enabled c2 g \<and> \<not> handle t2 g
     \<longrightarrow> Delete g \<notin> set (calls_of (emitted t2 (down_of env2 c2 t2)))
         \<and> (fst (down env2 (Some c2, t2)) \<noteq> Panic
               \<and> errors_of (emitted t2 (down_of env2 c2 t2)) = []
              \<longrightarrow> fst (down env2 (Some c2, t2)) = Ok)"
    using down_skips_node_group[of g t2 env2 c2] down_ok[of env2 c2 t2] by blast
  from A B show ?thesis by (rule conjI)
qed

text \<open>C7 (witness): the conformance add-on is enabled on a new cluster and its
  constructor fails; \<^verbatim>\<open>createSubTesters\<close> does not look at that error and goes on
  without the tester, and \<^verbatim>\<open>Up\<close> fails in the block of the add-on. The managed node
  groups without tester are skipped by \<open>down\<close>.\<close>

theorem C7_Up_enabled_without_tester_is_fatal_witness:
  "run_steps (map (up_step (no_tester_env Conformance)) (before_create Conformance))
      (conformance_config, base_tester) = (Ok, at_conformance)
   \<and> enabled conformance_config Conformance \<and> \<not> handle (snd at_conformance) Conformance
   \<and> Invoke (NewTester Conformance) (Some ''no tester'') \<in> set (trace (snd at_conformance))
   \<and> fst (Up (no_tester_env Conformance) (Some conformance_config, base_tester))
       = Err ''ts.conformanceTester == nil when AddOnConformance.Enable == true''
   \<and> Create Conformance \<notin> set (calls_of (emitted base_tester
         (Up_of (no_tester_env Conformance) conformance_config base_tester)))
   \<and> ManagedNodeGroups \<in> set node_group_addons
   \<and> Delete ManagedNodeGroups \<notin> set (calls_of (emitted base_tester
         (down_of quiet_env mng_config base_tester)))
   \<and> fst (down quiet_env (Some mng_config, base_tester)) = Ok"
proof -
  let ?env = "no_tester_env Conformance"
  have "fst (run_steps (map (up_step ?env) (before_create Conformance))
      (conformance_config, base_tester)) = Ok"
    by (simp add: before_create_def eval_up conformance_config_def no_tester_env_def)
  then have r: "run_steps (map (up_step ?env) (before_create Conformance))
      (conformance_config, base_tester) = (Ok, (fst at_conformance, snd at_conformance))"
    by (simp add: at_conformance_def prod_eq_iff)
  have e: "enabled conformance_config Conformance"
    by (simp add: conformance_config_def base_config_def only_def)
  have h: "\<not> handle (snd at_conformance) Conformance"
    "Invoke (NewTester Conformance) (Some ''no tester'') \<in> set (trace (snd at_conformance))"
    by (simp_all add: at_conformance_def before_create_def eval_up conformance_config_def
          no_tester_env_def)
  have s: "Status conformance_config \<noteq> None" "\<not> OnFailureDelete conformance_config"
    by (simp_all add: conformance_config_def base_config_def)
  have m: "ManagedNodeGroups \<in> set node_group_addons"
    "enabled mng_config ManagedNodeGroups" "\<not> handle base_tester ManagedNodeGroups"
    by (simp_all add: node_group_addons_def mng_config_def base_config_def base_tester_def only_def)
  have d: "fst (down quiet_env (Some mng_config, base_tester)) \<noteq> Panic"
    "errors_of (emitted base_tester (down_of quiet_env mng_config base_tester)) = []"
    by (simp_all add: eval_down mng_config_def)
  from C7_Up_enabled_without_tester_is_fatal[where env = ?env and a = Conformance
         and c = conformance_config and t = base_tester and ?c1.0 = "fst at_conformance"
         and ?t1.0 = "snd at_conformance" and g = ManagedNodeGroups and ?c2.0 = mng_config
         and ?t2.0 = base_tester and ?env2.0 = quiet_env]
       r e h s m d
  show ?thesis by simp
qed

section \<open>The stop signal, and IsUp\<close>

lemma fire_New_stop:
  "fire (New_stop t) = Some (t\<lparr>stopCreationCh := True, stopCreationChOnce := True\<rparr>)"
  by (simp add: fire_def New_stop_def close_ch_def)

lemma Up_interrupts:
  "interrupts (emitted (snd ts) (snd (snd (Up env ts)))) \<le> 1"
proof (cases ts)
  case (Pair co t)
  show ?thesis
  proof (cases co)
    case None
    with Pair show ?thesis by (simp add: Up_def emitted_def)
  next
    case (Some c)
    obtain r c1 t1 where b: "Up_body env (c, t) = (r, (c1, t1))" by (metis prod.exhaust)
    note q = step_relD[OF Up_body_rel[OF b]]
    from Up_tail(1)[OF b] obtain post where
      post: "trace (Up_of env c t) = trace t1 @ post" "interrupts post = 0"
      by blast
    have "trace (Up_of env c t) = trace t @ (emitted t t1 @ post)"
      using post(1) q(2) by simp
    then have "emitted t (Up_of env c t) = emitted t t1 @ post" by (rule emitted_append)
    with q(4) post(2) have "interrupts (emitted t (Up_of env c t)) \<le> 1"
      by (simp add: interrupts_append)
    with Pair Some show ?thesis by (simp add: Up_of_def)
  qed
qed

text \<open>
  C6: from the state in which \<^verbatim>\<open>New\<close> leaves the channel and the \<^verbatim>\<open>sync.Once\<close>,
  any sequence of firings is safe (no close of a closed channel) and leaves the channel
  closed as soon as there is one firing; firing more than once ends in the very state
  that one firing gives; firing a fired signal changes nothing; a step started after the
  signal has fired is interrupted; and one run of \<^verbatim>\<open>Up\<close> hands back at most one
  interrupted result.
\<close>

theorem C6_stop_signal_fires_once:
  "(\<exists>t'. fire_all sgs (New_stop t) = Some t' \<and> stopCreationCh t' = (sgs \<noteq> []))
   \<and> fire_all (sg # sgs) (New_stop t) = fire (New_stop t)
   \<and> (stopCreationChOnce t \<longrightarrow> fire t = Some t)
   \<and> (stopCreationCh t \<longrightarrow> fst (catchInterrupt env k (c, t)) = Err interrupted)
   \<and> interrupts (emitted (snd ts) (snd (snd (Up env ts)))) \<le> 1"
proof -
  have B: "fire_all (sg # sgs) (New_stop t) = fire (New_stop t)"
    by (simp add: fire_New_stop fire_fired)
  have A: "\<exists>t'. fire_all sgs (New_stop t) = Some t' \<and> stopCreationCh t' = (sgs \<noteq> [])"
  proof (cases sgs)
    case Nil
    then show ?thesis by (simp add: New_stop_def)
  next
    case (Cons x xs)
    then show ?thesis by (simp add: fire_New_stop fire_fired)
  qed
  have C: "stopCreationChOnce t \<longrightarrow> fire t = Some t"
    by (simp add: fire_def)
  from A B C catchInterrupt_after_fire Up_interrupts show ?thesis by blast
qed

text \<open>C6 (witness): a process signal and a stop request race; the first step of \<^verbatim>\<open>Up\<close>
  is interrupted and \<^verbatim>\<open>Up\<close> ends with that one interrupted result.\<close>

theorem C6_stop_signal_fires_once_witness:
  "fire_all [OsSignal, StopRequest] (New_stop base_tester) = fire (New_stop base_tester)
   \<and> fire (New_stop base_tester)
       = Some (base_tester\<lparr>stopCreationCh := True, stopCreationChOnce := True\<rparr>)
   \<and> stopCreationChOnce (base_tester\<lparr>stopCreationCh := True, stopCreationChOnce := True\<rparr>)
   \<and> fire (base_tester\<lparr>stopCreationCh := True, stopCreationChOnce := True\<rparr>)
       = Some (base_tester\<lparr>stopCreationCh := True, stopCreationChOnce := True\<rparr>)
   \<and> fst (Up racing_env (Some base_config, base_tester)) = Err interrupted
   \<and> interrupts (emitted base_tester (Up_of racing_env base_config base_tester)) = 1"
proof -
  have u: "fst (Up racing_env (Some base_config, base_tester)) = Err interrupted"
    by (simp add: eval_up racing_env_def fire_def close_ch_def)
  have i: "interrupts (emitted base_tester (Up_of racing_env base_config base_tester)) = 1"
    by (simp add: eval_up racing_env_def fire_def close_ch_def)
  have o: "stopCreationChOnce (base_tester\<lparr>stopCreationCh := True, stopCreationChOnce := True\<rparr>)"
    by simp
  from C6_stop_signal_fires_once[where sgs = "[StopRequest]" and t = base_tester
         and sg = OsSignal and env = racing_env and k = checkHealth and c = base_config
         and ts = "(Some base_config, base_tester)"]
       C6_stop_signal_fires_once[where sgs = "[StopRequest]"
         and t = "base_tester\<lparr>stopCreationCh := True, stopCreationChOnce := True\<rparr>"
         and sg = OsSignal and env = racing_env and k = checkHealth and c = base_config
         and ts = "(Some base_config, base_tester)"]
       fire_New_stop[of base_tester] u i o
  show ?thesis by simp
qed

text \<open>
  C9: \<^verbatim>\<open>IsUp\<close> returns false with a nil error and leaves the tester untouched, so
  without any health check, when the configuration is nil, its status is nil, or the
  status is not up; when the status is up it returns true together with what the health
  check returns, having made that one call.
\<close>

theorem C9_IsUp:
  "((co = None \<or> (\<exists>cf. co = Some cf \<and> Status cf = None)
     \<or> (\<exists>cf st. co = Some cf \<and> Status cf = Some st \<and> \<not> status_Up st))
      \<longrightarrow> IsUp env (co, t) = ((False, None), (co, t)))
   \<and> (co = Some c \<and> Status c = Some st \<and> status_Up st
      \<longrightarrow> fst (IsUp env (co, t)) = (True, fst (exec env checkHealth (world t)))
          \<and> emitted t (snd (snd (IsUp env (co, t))))
              = [Invoke checkHealth (fst (exec env checkHealth (world t)))])"
proof -
  have A: "(co = None \<or> (\<exists>cf. co = Some cf \<and> Status cf = None)
     \<or> (\<exists>cf st. co = Some cf \<and> Status cf = Some st \<and> \<not> status_Up st))
      \<longrightarrow> IsUp env (co, t) = ((False, None), (co, t))"
    by (auto simp: IsUp_def)
  have B: "co = Some c \<and> Status c = Some st \<and> status_Up st
      \<longrightarrow> fst (IsUp env (co, t)) = (True, fst (exec env checkHealth (world t)))
          \<and> emitted t (snd (snd (IsUp env (co, t))))
              = [Invoke checkHealth (fst (exec env checkHealth (world t)))]"
    by (auto simp: IsUp_def invoke_def log_def emitted_def split: prod.splits)
  from A B show ?thesis by blast
qed

text \<open>C9 (witness): a nil configuration, a status that is not up, and a cluster that is
  up but not healthy.\<close>

theorem C9_IsUp_witness:
  "IsUp unhealthy_env nil_config_Tester = ((False, None), nil_config_Tester)
   \<and> IsUp unhealthy_env (Some down_config, base_tester) = ((False, None), (Some down_config, base_tester))
   \<and> fst (IsUp unhealthy_env (Some base_config, base_tester)) = (True, Some ''health check failed'')
   \<and> emitted base_tester (snd (snd (IsUp unhealthy_env (Some base_config, base_tester))))
       = [Invoke checkHealth (Some ''health check failed'')]"
proof -
  have s: "Status down_config = Some \<lparr>status_Up = False\<rparr>" "Status base_config = Some \<lparr>status_Up = True\<rparr>"
    by (simp_all add: down_config_def base_config_def)
  have x: "fst (exec unhealthy_env checkHealth (world base_tester)) = Some ''health check failed''"
    by (simp add: unhealthy_env_def failing_with_def)
  from C9_IsUp[where co = None and env = unhealthy_env and t = base_tester]
       C9_IsUp[where co = "Some down_config" and env = unhealthy_env and t = base_tester]
       C9_IsUp[where co = "Some base_config" and c = base_config
         and st = "\<lparr>status_Up = True\<rparr>" and env = unhealthy_env and t = base_tester]
       s x
  show ?thesis by (simp add: nil_config_Tester_def)
qed

end
